theory Spec2Isabelle
  imports Main "HOL-Library.Word"
begin

unbundle bit_operations_syntax

section \<open>Data model\<close>

text \<open>
  A \<open>bignum256\<close> is the C struct holding \<open>uint32_t val[9]\<close>: nine digits in base
  \<open>2^30\<close>, least significant first.  The wide product buffer \<open>uint32_t res[18]\<close> is
  a list of the same element type.
\<close>

type_synonym uint8 = "8 word"
type_synonym uint32 = "32 word"
type_synonym uint64 = "64 word"
type_synonym bignum256 = "uint32 list"

text \<open>The number a limb array stands for: \<open>sum val[i] * 2^(30 i)\<close>.\<close>

definition limbs_upto :: "nat \<Rightarrow> uint32 list \<Rightarrow> int" where
  "limbs_upto n a = (\<Sum>i<n. uint (a ! i) * 2 ^ (30 * i))"

definition bn_val :: "bignum256 \<Rightarrow> int" where
  "bn_val a = limbs_upto 9 a"

definition bn_normalized :: "bignum256 \<Rightarrow> bool" where
  "bn_normalized a \<longleftrightarrow> length a = 9 \<and> list_all (\<lambda>v. v < 0x40000000) a"

definition partly_reduced :: "bignum256 \<Rightarrow> bignum256 \<Rightarrow> bool" where
  "partly_reduced a prime \<longleftrightarrow> bn_normalized a \<and> bn_val a < 2 * bn_val prime"

definition fully_reduced :: "bignum256 \<Rightarrow> bignum256 \<Rightarrow> bool" where
  "fully_reduced a prime \<longleftrightarrow> bn_normalized a \<and> bn_val a < bn_val prime"

text \<open>The band every modular routine relies on: \<open>2^256 - 2^224 < prime < 2^256\<close>.\<close>

definition prime_band :: "bignum256 \<Rightarrow> bool" where
  "prime_band prime \<longleftrightarrow>
     bn_normalized prime \<and> 2 ^ 256 - 2 ^ 224 < bn_val prime \<and> bn_val prime < 2 ^ 256"

text \<open>The external secure-erase primitive: every element of the buffer becomes zero.\<close>

definition memzero :: "uint32 list \<Rightarrow> uint32 list" where
  "memzero buf = replicate (length buf) 0"

section \<open>Byte encodings\<close>

definition read_be :: "uint8 list \<Rightarrow> uint32" where
  "read_be data =
     push_bit 24 (ucast (data ! 0)) OR push_bit 16 (ucast (data ! 1)) OR
     push_bit 8 (ucast (data ! 2)) OR ucast (data ! 3)"

definition write_be :: "uint8 list \<Rightarrow> nat \<Rightarrow> uint32 \<Rightarrow> uint8 list" where
  "write_be data off x =
     data[off := ucast (drop_bit 24 x), off + 1 := ucast (drop_bit 16 x),
          off + 2 := ucast (drop_bit 8 x), off + 3 := ucast x]"

definition read_le :: "uint8 list \<Rightarrow> uint32" where
  "read_le data =
     push_bit 24 (ucast (data ! 3)) OR push_bit 16 (ucast (data ! 2)) OR
     push_bit 8 (ucast (data ! 1)) OR ucast (data ! 0)"

definition write_le :: "uint8 list \<Rightarrow> nat \<Rightarrow> uint32 \<Rightarrow> uint8 list" where
  "write_le data off x =
     data[off + 3 := ucast (drop_bit 24 x), off + 2 := ucast (drop_bit 16 x),
          off + 1 := ucast (drop_bit 8 x), off := ucast x]"

text \<open>One round of the decoding loop shared by \<open>bn_read_be\<close> and \<open>bn_read_le\<close>.\<close>

fun bn_read_round :: "nat \<Rightarrow> uint32 \<Rightarrow> uint32 \<times> bignum256 \<Rightarrow> uint32 \<times> bignum256" where
  "bn_read_round i limb (temp, out_number) =
     (let temp = temp OR push_bit (2 * i) limb;
          out_number = out_number[i := temp AND 0x3FFFFFFF];
          temp = drop_bit (30 - 2 * i) limb
      in (temp, out_number))"

definition bn_read_be_round :: "uint8 list \<Rightarrow> nat \<Rightarrow> uint32 \<times> bignum256 \<Rightarrow> uint32 \<times> bignum256" where
  "bn_read_be_round in_number i st = bn_read_round i (read_be (drop ((7 - i) * 4) in_number)) st"

definition bn_read_be :: "uint8 list \<Rightarrow> bignum256 \<Rightarrow> bignum256" where
  "bn_read_be in_number out_number =
     (case fold (bn_read_be_round in_number) [0..<8] (0, out_number)
      of (temp, out_number) \<Rightarrow> out_number[8 := temp])"

definition bn_read_le_round :: "uint8 list \<Rightarrow> nat \<Rightarrow> uint32 \<times> bignum256 \<Rightarrow> uint32 \<times> bignum256" where
  "bn_read_le_round in_number i st = bn_read_round i (read_le (drop (i * 4) in_number)) st"

definition bn_read_le :: "uint8 list \<Rightarrow> bignum256 \<Rightarrow> bignum256" where
  "bn_read_le in_number out_number =
     (case fold (bn_read_le_round in_number) [0..<8] (0, out_number)
      of (temp, out_number) \<Rightarrow> out_number[8 := temp])"

fun bn_write_be_round :: "bignum256 \<Rightarrow> nat \<Rightarrow> uint32 \<times> uint8 list \<Rightarrow> uint32 \<times> uint8 list" where
  "bn_write_be_round in_number i (temp, out_number) =
     (let limb = in_number ! (7 - i);
          temp = push_bit (16 + 2 * i) temp OR drop_bit (14 - 2 * i) limb;
          out_number = write_be out_number (i * 4) temp
      in (limb, out_number))"

definition bn_write_be :: "bignum256 \<Rightarrow> uint8 list \<Rightarrow> uint8 list" where
  "bn_write_be in_number out_number =
     snd (fold (bn_write_be_round in_number) [0..<8] (in_number ! 8, out_number))"

fun bn_write_le_round :: "bignum256 \<Rightarrow> nat \<Rightarrow> uint32 \<times> uint8 list \<Rightarrow> uint32 \<times> uint8 list" where
  "bn_write_le_round in_number i (temp, out_number) =
     (let limb = in_number ! (7 - i);
          temp = push_bit (16 + 2 * i) temp OR drop_bit (14 - 2 * i) limb;
          out_number = write_le out_number ((7 - i) * 4) temp
      in (limb, out_number))"

definition bn_write_le :: "bignum256 \<Rightarrow> uint8 list \<Rightarrow> uint8 list" where
  "bn_write_le in_number out_number =
     snd (fold (bn_write_le_round in_number) [0..<8] (in_number ! 8, out_number))"

section \<open>Constructors and predicates\<close>

definition bn_zero :: "bignum256 \<Rightarrow> bignum256" where
  "bn_zero a = fold (\<lambda>i a. a[i := 0]) [0..<9] a"

definition bn_one :: "bignum256 \<Rightarrow> bignum256" where
  "bn_one a = a[0 := 1, 1 := 0, 2 := 0, 3 := 0, 4 := 0, 5 := 0, 6 := 0, 7 := 0, 8 := 0]"

text \<open>
  The three predicates run on secret values.  Their embedding is a run that also
  records what it reveals to an observer of the control flow and of the addresses read:
  the outcome of every test of a control statement and the index of every limb read.
  A computation of type \<open>'a lk\<close> is its value with that record; only \<open>lk_test\<close> and
  \<open>lk_load\<close> add to the record.
\<close>

datatype leak = Test bool | Load nat

type_synonym 'a lk = "'a \<times> leak list"

definition lk_return :: "'a \<Rightarrow> 'a lk" where
  "lk_return x = (x, [])"

definition lk_bind :: "'a lk \<Rightarrow> ('a \<Rightarrow> 'b lk) \<Rightarrow> 'b lk" where
  "lk_bind m f = (case m of (x, t) \<Rightarrow> (case f x of (y, u) \<Rightarrow> (y, t @ u)))"

text \<open>The test of a control statement, and the read \<open>a->val[i]\<close>.\<close>

definition lk_test :: "bool \<Rightarrow> bool lk" where
  "lk_test c = (c, [Test c])"

definition lk_load :: "uint32 list \<Rightarrow> nat \<Rightarrow> uint32 lk" where
  "lk_load a i = (a ! i, [Load i])"

text \<open>
  \<open>for (; i < n; i++) body\<close> after the computation \<open>m\<close>: every evaluation of the loop
  test is recorded, the last one too.
\<close>

function lk_for_up :: "nat \<Rightarrow> nat \<Rightarrow> (nat \<Rightarrow> 's \<Rightarrow> 's lk) \<Rightarrow> 's lk \<Rightarrow> 's lk" where
  "lk_for_up i n body m =
     (if i < n
      then lk_for_up (Suc i) n body
             (lk_bind m (\<lambda>s. lk_bind (lk_test (i < n)) (\<lambda>c. body i s)))
      else lk_bind m (\<lambda>s. lk_bind (lk_test (i < n)) (\<lambda>c. lk_return s)))"
  by pat_completeness auto
termination
  by (relation "measure (\<lambda>(i, n, body, m). n - i)") auto

text \<open>\<open>for (; i >= 0; i--) body\<close> with the \<open>int\<close> counter \<open>i\<close>.\<close>

function lk_for_down :: "int \<Rightarrow> (nat \<Rightarrow> 's \<Rightarrow> 's lk) \<Rightarrow> 's lk \<Rightarrow> 's lk" where
  "lk_for_down i body m =
     (if i \<ge> 0
      then lk_for_down (i - 1) body
             (lk_bind m (\<lambda>s. lk_bind (lk_test (i \<ge> 0)) (\<lambda>c. body (nat i) s)))
      else lk_bind m (\<lambda>s. lk_bind (lk_test (i \<ge> 0)) (\<lambda>c. lk_return s)))"
  by pat_completeness auto
termination
  by (relation "measure (\<lambda>(i, body, m). nat (i + 1))") auto

text \<open>\<open>bn_is_zero\<close>: \<open>result |= a->val[i]\<close> for \<open>i = 0, ..., 8\<close>, then \<open>return !result\<close>.\<close>

definition bn_is_zero_round :: "bignum256 \<Rightarrow> nat \<Rightarrow> uint32 \<Rightarrow> uint32 lk" where
  "bn_is_zero_round a i result = lk_bind (lk_load a i) (\<lambda>v. lk_return (result OR v))"

definition bn_is_zero_lk :: "bignum256 \<Rightarrow> bool lk" where
  "bn_is_zero_lk a =
     lk_bind (lk_for_up 0 9 (bn_is_zero_round a) (lk_return 0))
       (\<lambda>result. lk_return (result = 0))"

definition bn_is_zero :: "bignum256 \<Rightarrow> bool" where
  "bn_is_zero a = fst (bn_is_zero_lk a)"

text \<open>
  \<open>bn_is_less\<close>: the loop runs \<open>i = 8, 7, ..., 0\<close>; each of its two statements reads
  \<open>a->val[i]\<close> and \<open>b->val[i]\<close>.  The comparisons of limbs are operators, not control
  statements.
\<close>

fun bn_is_less_round :: "bignum256 \<Rightarrow> bignum256 \<Rightarrow> nat \<Rightarrow> uint32 \<times> uint32 \<Rightarrow> (uint32 \<times> uint32) lk" where
  "bn_is_less_round a b i (res1, res2) =
     lk_bind (lk_load a i) (\<lambda>x. lk_bind (lk_load b i) (\<lambda>y.
     lk_bind (lk_return (push_bit 1 res1 OR of_bool (x < y))) (\<lambda>res1.
     lk_bind (lk_load a i) (\<lambda>x. lk_bind (lk_load b i) (\<lambda>y.
     lk_return (res1, push_bit 1 res2 OR of_bool (x > y)))))))"

definition bn_is_less_lk :: "bignum256 \<Rightarrow> bignum256 \<Rightarrow> bool lk" where
  "bn_is_less_lk a b =
     lk_bind (lk_for_down 8 (bn_is_less_round a b) (lk_return (0, 0)))
       (\<lambda>(res1, res2). lk_return (res1 > res2))"

definition bn_is_less :: "bignum256 \<Rightarrow> bignum256 \<Rightarrow> bool" where
  "bn_is_less a b = fst (bn_is_less_lk a b)"

text \<open>\<open>bn_is_equal\<close>: \<open>result |= (a->val[i] ^ b->val[i])\<close> for \<open>i = 0, ..., 8\<close>.\<close>

definition bn_is_equal_round :: "bignum256 \<Rightarrow> bignum256 \<Rightarrow> nat \<Rightarrow> uint32 \<Rightarrow> uint32 lk" where
  "bn_is_equal_round a b i result =
     lk_bind (lk_load a i) (\<lambda>x. lk_bind (lk_load b i) (\<lambda>y. lk_return (result OR (x XOR y))))"

definition bn_is_equal_lk :: "bignum256 \<Rightarrow> bignum256 \<Rightarrow> bool lk" where
  "bn_is_equal_lk a b =
     lk_bind (lk_for_up 0 9 (bn_is_equal_round a b) (lk_return 0))
       (\<lambda>result. lk_return (result = 0))"

definition bn_is_equal :: "bignum256 \<Rightarrow> bignum256 \<Rightarrow> bool" where
  "bn_is_equal a b = fst (bn_is_equal_lk a b)"

text \<open>
  For the proofs: the pair \<open>(res1, res2)\<close> of \<open>bn_is_less\<close> after the rounds
  \<open>i = n - 1, ..., 0\<close>, as a recursion on \<open>n\<close>.
\<close>

fun bn_is_less_loop :: "nat \<Rightarrow> bignum256 \<Rightarrow> bignum256 \<Rightarrow> uint32 \<times> uint32 \<Rightarrow> uint32 \<times> uint32" where
  "bn_is_less_loop 0 a b (res1, res2) = (res1, res2)"
| "bn_is_less_loop (Suc i) a b (res1, res2) =
     bn_is_less_loop i a b
       (push_bit 1 res1 OR of_bool (a ! i < b ! i),
        push_bit 1 res2 OR of_bool (a ! i > b ! i))"

text \<open>
  \<open>bn_cmov\<close>: \<open>cond\<close> is the C truth value 0 or 1 (the function asserts it), so it is
  a \<open>bool\<close> here and \<open>(uint32_t) -cond\<close> is \<open>- of_bool cond\<close>.
\<close>

definition bn_cmov :: "bignum256 \<Rightarrow> bool \<Rightarrow> bignum256 \<Rightarrow> bignum256 \<Rightarrow> bignum256" where
  "bn_cmov res cond truecase falsecase =
     (let tmask = - of_bool cond :: uint32; fmask = NOT tmask
      in fold (\<lambda>i res. res[i := (truecase ! i AND tmask) OR (falsecase ! i AND fmask)])
           [0..<9] res)"

section \<open>Shifts and small additions\<close>

definition bn_rshift :: "bignum256 \<Rightarrow> bignum256" where
  "bn_rshift a =
     (let a = fold (\<lambda>i a. a[i := drop_bit 1 (a ! i) OR push_bit 29 (a ! (i + 1) AND 1)])
                [0..<8] a
      in a[8 := drop_bit 1 (a ! 8)])"

fun bn_addi_round :: "nat \<Rightarrow> uint32 \<times> bignum256 \<Rightarrow> uint32 \<times> bignum256" where
  "bn_addi_round i (tmp, a) =
     (let tmp = tmp + a ! i;
          a = a[i := tmp AND 0x3FFFFFFF]
      in (drop_bit 30 tmp, a))"

definition bn_addi :: "bignum256 \<Rightarrow> uint32 \<Rightarrow> bignum256" where
  "bn_addi a b = snd (fold bn_addi_round [0..<9] (b, a))"

fun bn_subtract_round :: "bignum256 \<Rightarrow> bignum256 \<Rightarrow> nat \<Rightarrow> uint32 \<times> bignum256 \<Rightarrow> uint32 \<times> bignum256" where
  "bn_subtract_round a b i (tmp, res) =
     (let tmp = tmp + (0x3FFFFFFF + a ! i - b ! i);
          res = res[i := tmp AND 0x3FFFFFFF]
      in (drop_bit 30 tmp, res))"

definition bn_subtract :: "bignum256 \<Rightarrow> bignum256 \<Rightarrow> bignum256 \<Rightarrow> bignum256" where
  "bn_subtract a b res = snd (fold (bn_subtract_round a b) [0..<9] (1, res))"

text \<open>
  \<open>bn_mod\<close>: \<open>temp\<close> is an uninitialised local that \<open>bn_subtract\<close> fills completely;
  its initial content is the parameter \<open>temp0\<close>.
\<close>

definition bn_mod_with :: "bignum256 \<Rightarrow> bignum256 \<Rightarrow> bignum256 \<Rightarrow> bignum256" where
  "bn_mod_with temp0 x prime =
     (let flag = bn_is_less x prime;
          temp = bn_subtract x prime temp0
      in bn_cmov x flag x temp)"

definition bn_mod :: "bignum256 \<Rightarrow> bignum256 \<Rightarrow> bignum256" where
  "bn_mod x prime = bn_mod_with (replicate 9 0) x prime"

section \<open>Multiplication and reduction\<close>

text \<open>
  \<open>bn_multiply_long\<close>: \<open>bn_multiply_column\<close> is the body of both outer loops, the
  inner loop running over \<open>js\<close>.
\<close>

definition bn_multiply_term :: "bignum256 \<Rightarrow> bignum256 \<Rightarrow> nat \<Rightarrow> nat \<Rightarrow> uint64 \<Rightarrow> uint64" where
  "bn_multiply_term k x i j temp = temp + ucast (k ! j) * ucast (x ! (i - j))"

fun bn_multiply_column :: "bignum256 \<Rightarrow> bignum256 \<Rightarrow> nat list \<Rightarrow> nat \<Rightarrow> uint64 \<times> uint32 list \<Rightarrow> uint64 \<times> uint32 list" where
  "bn_multiply_column k x js i (temp, res) =
     (let temp = fold (bn_multiply_term k x i) js temp;
          res = res[i := ucast (temp AND 0x3FFFFFFF)]
      in (drop_bit 30 temp, res))"

definition bn_multiply_lower :: "bignum256 \<Rightarrow> bignum256 \<Rightarrow> nat \<Rightarrow> uint64 \<times> uint32 list \<Rightarrow> uint64 \<times> uint32 list" where
  "bn_multiply_lower k x i st = bn_multiply_column k x [0..<i + 1] i st"

definition bn_multiply_upper :: "bignum256 \<Rightarrow> bignum256 \<Rightarrow> nat \<Rightarrow> uint64 \<times> uint32 list \<Rightarrow> uint64 \<times> uint32 list" where
  "bn_multiply_upper k x i st = bn_multiply_column k x [i - 8..<9] i st"

definition bn_multiply_long :: "bignum256 \<Rightarrow> bignum256 \<Rightarrow> uint32 list \<Rightarrow> uint32 list" where
  "bn_multiply_long k x res =
     (case fold (bn_multiply_upper k x) [9..<17]
             (fold (bn_multiply_lower k x) [0..<9] (0, res))
      of (temp, res) \<Rightarrow> res[17 := ucast temp])"

text \<open>
  The loop body shared by \<open>bn_multiply_reduce_step\<close> (window offset \<open>off = i - 8\<close>)
  and \<open>bn_fast_mod\<close> (offset 0).
\<close>

fun bn_reduce_round :: "bignum256 \<Rightarrow> uint32 \<Rightarrow> nat \<Rightarrow> nat \<Rightarrow> uint64 \<times> uint32 list \<Rightarrow> uint64 \<times> uint32 list" where
  "bn_reduce_round prime coef off j (temp, res) =
     (let temp = drop_bit 30 temp;
          temp = temp + (0x1FFFFFFF80000000 + ucast (res ! (off + j))
                           - ucast (prime ! j) * ucast coef);
          res = res[off + j := ucast (temp AND 0x3FFFFFFF)]
      in (temp, res))"

text \<open>
  \<open>bn_multiply_reduce_step\<close>: \<open>None\<close> is the failed \<open>assert (coef < 0x80000000u)\<close>.
\<close>

definition bn_multiply_reduce_step :: "uint32 list \<Rightarrow> bignum256 \<Rightarrow> nat \<Rightarrow> uint32 list option" where
  "bn_multiply_reduce_step res prime i =
     (let coef = drop_bit 16 (res ! i) + push_bit 14 (res ! (i + 1));
          temp = 0x2000000000000000 + ucast (res ! (i - 8)) - ucast (prime ! 0) * ucast coef :: uint64
      in if \<not> coef < 0x80000000 then None
         else
           let res = res[i - 8 := ucast (temp AND 0x3FFFFFFF)]
           in case fold (bn_reduce_round prime coef (i - 8)) [1..<9] (temp, res) of
                (temp, res) \<Rightarrow>
                  let temp = drop_bit 30 temp;
                      temp = temp + (0x1FFFFFFF80000000 + ucast (res ! (i - 8 + 9)));
                      res = res[i - 8 + 9 := ucast (temp AND 0x3FFFFFFF)]
                  in Some res)"

text \<open>
  \<open>bn_multiply_reduce\<close>: \<open>i = 16, ..., 8\<close>, the counter of the recursion is \<open>i - 7\<close>;
  \<open>None\<close> is a failed assertion, of the step or \<open>assert(res[i + 1] == 0)\<close>.
  The result is the new \<open>x\<close> and the final content of \<open>res\<close>.
\<close>

fun bn_multiply_reduce_loop :: "nat \<Rightarrow> uint32 list \<Rightarrow> bignum256 \<Rightarrow> uint32 list option" where
  "bn_multiply_reduce_loop 0 res prime = Some res"
| "bn_multiply_reduce_loop (Suc n) res prime =
     (case bn_multiply_reduce_step res prime (n + 8) of
        None \<Rightarrow> None
      | Some res \<Rightarrow>
          if res ! (n + 8 + 1) \<noteq> 0 then None
          else bn_multiply_reduce_loop n res prime)"

definition bn_multiply_reduce :: "bignum256 \<Rightarrow> uint32 list \<Rightarrow> bignum256 \<Rightarrow> (bignum256 \<times> uint32 list) option" where
  "bn_multiply_reduce x res prime =
     (case bn_multiply_reduce_loop 9 res prime of
        None \<Rightarrow> None
      | Some res \<Rightarrow> Some (fold (\<lambda>i x. x[i := res ! i]) [0..<9] x, res))"

text \<open>
  \<open>bn_multiply_st\<close> is \<open>bn_multiply\<close> with its local array: the result is the new
  \<open>x\<close> and the content of \<open>res\<close> at the return.
\<close>

definition bn_multiply_st :: "bignum256 \<Rightarrow> bignum256 \<Rightarrow> bignum256 \<Rightarrow> (bignum256 \<times> uint32 list) option" where
  "bn_multiply_st k x prime =
     (let res = replicate 18 0;
          res = bn_multiply_long k x res
      in case bn_multiply_reduce x res prime of
           None \<Rightarrow> None
         | Some (x, res) \<Rightarrow> Some (x, memzero res))"

definition bn_multiply :: "bignum256 \<Rightarrow> bignum256 \<Rightarrow> bignum256 \<Rightarrow> bignum256 option" where
  "bn_multiply k x prime = map_option fst (bn_multiply_st k x prime)"

definition bn_fast_mod :: "bignum256 \<Rightarrow> bignum256 \<Rightarrow> bignum256" where
  "bn_fast_mod x prime =
     (let coef = drop_bit 16 (x ! 8);
          temp = 0x2000000000000000 + ucast (x ! 0) - ucast (prime ! 0) * ucast coef :: uint64;
          x = x[0 := ucast (temp AND 0x3FFFFFFF)]
      in snd (fold (bn_reduce_round prime coef 0) [1..<9] (temp, x)))"

section \<open>Exponentiation\<close>

text \<open>
  The inner loop of \<open>bn_sqrt\<close> and \<open>bn_inverse\<close>: the first argument counts the rounds
  \<open>j\<close> that are left, \<open>brk\<close> is the test \<open>i == 8\<close> of the \<open>break\<close>.
\<close>

fun bn_power_inner :: "nat \<Rightarrow> bool \<Rightarrow> uint32 \<Rightarrow> bignum256 \<Rightarrow> bignum256 \<Rightarrow> bignum256 \<Rightarrow> (bignum256 \<times> bignum256) option" where
  "bn_power_inner 0 brk limb x res prime = Some (x, res)"
| "bn_power_inner (Suc n) brk limb x res prime =
     (if brk \<and> limb = 0 then Some (x, res)
      else
        case (if limb AND 1 \<noteq> 0 then bn_multiply x res prime else Some res) of
          None \<Rightarrow> None
        | Some res \<Rightarrow>
            (case bn_multiply x x prime of
               None \<Rightarrow> None
             | Some x \<Rightarrow> bn_power_inner n brk (drop_bit 1 limb) x res prime))"

text \<open>
  \<open>bn_inverse_st\<close> is \<open>bn_inverse\<close> with its local \<open>res\<close>: the result is the new
  \<open>x\<close> and the content of \<open>res\<close> at the return.
\<close>

fun bn_inverse_round :: "bignum256 \<Rightarrow> nat \<Rightarrow> (bignum256 \<times> bignum256) option \<Rightarrow> (bignum256 \<times> bignum256) option" where
  "bn_inverse_round prime i None = None"
| "bn_inverse_round prime i (Some (x, res)) =
     (let limb = prime ! i;
          limb = (if i = 0 then limb - 2 else limb)
      in bn_power_inner 30 (i = 8) limb x res prime)"

definition bn_inverse_st :: "bignum256 \<Rightarrow> bignum256 \<Rightarrow> (bignum256 \<times> bignum256) option" where
  "bn_inverse_st x prime =
     (case fold (bn_inverse_round prime) [0..<9] (Some (x, bn_one (replicate 9 0))) of
        None \<Rightarrow> None
      | Some (x, res) \<Rightarrow>
          let res = bn_mod res prime;
              x = res
          in Some (x, res))"

definition bn_inverse :: "bignum256 \<Rightarrow> bignum256 \<Rightarrow> bignum256 option" where
  "bn_inverse x prime = map_option fst (bn_inverse_st x prime)"

text \<open>
  \<open>bn_sqrt_st\<close> is \<open>bn_sqrt\<close> with its locals: the result is the new \<open>x\<close> and the
  contents of \<open>res\<close> and \<open>p\<close> at the return.
\<close>

fun bn_sqrt_round :: "bignum256 \<Rightarrow> bignum256 \<Rightarrow> nat \<Rightarrow> (bignum256 \<times> bignum256) option \<Rightarrow> (bignum256 \<times> bignum256) option" where
  "bn_sqrt_round p prime i None = None"
| "bn_sqrt_round p prime i (Some (x, res)) = bn_power_inner 30 (i = 8) (p ! i) x res prime"

definition bn_sqrt_st :: "bignum256 \<Rightarrow> bignum256 \<Rightarrow> (bignum256 \<times> bignum256 \<times> bignum256) option" where
  "bn_sqrt_st x prime =
     (let res = bn_one (replicate 9 0);
          p = prime;
          p = bn_addi p 1;
          p = bn_rshift p;
          p = bn_rshift p
      in case fold (bn_sqrt_round p prime) [0..<9] (Some (x, res)) of
           None \<Rightarrow> None
         | Some (x, res) \<Rightarrow>
             let res = bn_mod res prime;
                 x = res
             in Some (x, memzero res, memzero p))"

definition bn_sqrt :: "bignum256 \<Rightarrow> bignum256 \<Rightarrow> bignum256 option" where
  "bn_sqrt x prime = map_option fst (bn_sqrt_st x prime)"

text \<open>The secp256k1 field prime \<open>2^256 - 2^32 - 977\<close> in limb form.\<close>

definition secp256k1_prime :: bignum256 where
  "secp256k1_prime =
     [0x3ffffc2f, 0x3ffffffb, 0x3fffffff, 0x3fffffff, 0x3fffffff,
      0x3fffffff, 0x3fffffff, 0x3fffffff, 0xffff]"


section \<open>Values of windows of a limb array\<close>

text \<open>The number held by the \<open>n\<close> limbs from index \<open>off\<close> on.\<close>

definition limbs_at :: "nat \<Rightarrow> nat \<Rightarrow> uint32 list \<Rightarrow> int" where
  "limbs_at off n a = (\<Sum>i<n. uint (a ! (off + i)) * 2 ^ (30 * i))"

text \<open>
  The state of the product buffer between two reduction steps: 18 normalized limbs,
  zero above index \<open>t\<close>, and fewer than 17 bits in limb \<open>t\<close>.
\<close>

definition red_top :: "nat \<Rightarrow> uint32 list \<Rightarrow> bool" where
  "red_top t res \<longleftrightarrow>
     length res = 18 \<and> (\<forall>k<18. res ! k < 0x40000000) \<and>
     (\<forall>k. t < k \<and> k < 18 \<longrightarrow> res ! k = 0) \<and> uint (res ! t) < 2 ^ 17"

text \<open>
  The indices \<open>j\<close> of the inner loop of \<open>bn_multiply_long\<close> in column \<open>c\<close>, and the
  sum of products the column adds to \<open>temp\<close>.
\<close>

definition mul_js :: "nat \<Rightarrow> nat list" where
  "mul_js c = (if c < 9 then [0..<c + 1] else [c - 8..<9])"

definition mul_col :: "bignum256 \<Rightarrow> bignum256 \<Rightarrow> nat \<Rightarrow> int" where
  "mul_col k x c = (\<Sum>j\<leftarrow>mul_js c. uint (k ! j) * uint (x ! (c - j)))"


section \<open>Decimal conversion\<close>

text \<open>\<open>bn_divmod1000\<close>: the result is the new \<open>a\<close> and the remainder \<open>*r\<close>.\<close>

fun bn_divmod1000_loop :: "nat \<Rightarrow> uint32 \<times> bignum256 \<Rightarrow> uint32 \<times> bignum256" where
  "bn_divmod1000_loop 0 (rem, a) = (rem, a)"
| "bn_divmod1000_loop (Suc i) (rem, a) =
     (let tmp = rem * 824 + a ! i;
          a = a[i := rem * 1073741 + tmp div 1000];
          rem = tmp mod 1000
      in bn_divmod1000_loop i (rem, a))"

definition bn_divmod1000 :: "bignum256 \<Rightarrow> bignum256 \<times> uint32" where
  "bn_divmod1000 a =
     (let rem = a ! 8 mod 1000;
          a = a[8 := a ! 8 div 1000];
          (rem, a) = bn_divmod1000_loop 8 (rem, a)
      in (a, rem))"

text \<open>
  \<open>bn_digitcount\<close>: the loop runs \<open>i = 0, 3, ..., 75\<close> (\<open>DIGITS\<close> is 78); all
  counters are \<open>unsigned int\<close>.
\<close>

fun bn_digitcount_round :: "nat \<Rightarrow> bignum256 \<times> uint32 \<Rightarrow> bignum256 \<times> uint32" where
  "bn_digitcount_round n (val, digits) =
     (let i = 3 * word_of_nat n :: uint32
      in case bn_divmod1000 val of
           (val, limb) \<Rightarrow>
             (val,
              if limb \<ge> 100 then i + 3
              else if limb \<ge> 10 then i + 2
              else if limb \<ge> 1 then i + 1
              else digits))"

definition bn_digitcount :: "bignum256 \<Rightarrow> uint32" where
  "bn_digitcount a = snd (fold bn_digitcount_round [0..<26] (a, 1))"

text \<open>
  \<open>bn_format\<close> writes into the caller's buffer \<open>out\<close> of \<open>outlen\<close> bytes, here a
  list of that length; the pointers \<open>start\<close>, \<open>end\<close> and \<open>str\<close> are indices into
  it.  The function leaves either by a \<open>return\<close> (the value and the buffer as it is
  then), or by an access outside the buffer, which C leaves undefined.
\<close>

datatype fmt_exit = OutOfBounds | Return nat string

record fmt_state =
  out :: string
  str :: nat
  exponent :: int
  decimals :: uint32

text \<open>\<open>memcpy(&dst[off], src, strlen(src))\<close> inside the bounds of \<open>dst\<close>.\<close>

definition memcpy_at :: "string \<Rightarrow> nat \<Rightarrow> string \<Rightarrow> string" where
  "memcpy_at dst off src = take off dst @ src @ drop (off + length src) dst"

definition BN_FORMAT_PUSH_CHECKED :: "nat \<Rightarrow> char \<Rightarrow> fmt_state \<Rightarrow> fmt_exit + fmt_state" where
  "BN_FORMAT_PUSH_CHECKED start c st =
     (if str st = start then Inl (Return 0 (out st))
      else if str st = 0 \<or> length (out st) < str st then Inl OutOfBounds
      else Inr (st\<lparr>str := str st - 1, out := (out st)[str st - 1 := c]\<rparr>))"

definition BN_FORMAT_PUSH :: "nat \<Rightarrow> nat \<Rightarrow> bool \<Rightarrow> uint32 \<Rightarrow> fmt_state \<Rightarrow> fmt_exit + fmt_state" where
  "BN_FORMAT_PUSH start end trailing n st =
     (if exponent st < 0 then Inr (st\<lparr>exponent := exponent st + 1\<rparr>)
      else
        case (if n > 0 \<or> trailing \<or> str st \<noteq> end \<or> decimals st \<le> 1
              then BN_FORMAT_PUSH_CHECKED start (char_of (of_char CHR ''0'' + unat n)) st
              else Inr st)
        of Inl e \<Rightarrow> Inl e
         | Inr st \<Rightarrow>
             if decimals st > 0
             then (if decimals st = 1
                   then BN_FORMAT_PUSH_CHECKED start CHR ''.'' (st\<lparr>decimals := decimals st - 1\<rparr>)
                   else Inr (st\<lparr>decimals := decimals st - 1\<rparr>))
             else Inr st)"

text \<open>
  A statement after one that may have left the function: \<open>fmt_push\<close> is
  \<open>BN_FORMAT_PUSH\<close> at a point the execution may not reach any more.
\<close>

fun fmt_push :: "nat \<Rightarrow> nat \<Rightarrow> bool \<Rightarrow> uint32 \<Rightarrow> fmt_exit + fmt_state \<Rightarrow> fmt_exit + fmt_state" where
  "fmt_push start end trailing n (Inl e) = Inl e"
| "fmt_push start end trailing n (Inr st) = BN_FORMAT_PUSH start end trailing n st"

lemma char_of_48: "char_of (48 :: nat) = CHR ''0''"
  by code_simp

lemma BN_FORMAT_PUSH_exponent:
  "BN_FORMAT_PUSH start end trailing n st = Inr st' \<Longrightarrow>
     exponent st' = (if exponent st < 0 then exponent st + 1 else exponent st)"
  by (auto simp: BN_FORMAT_PUSH_def BN_FORMAT_PUSH_CHECKED_def Let_def
           split: if_splits sum.splits)

text \<open>\<open>for (; exponent > 0; exponent--) BN_FORMAT_PUSH(0);\<close>\<close>

function fmt_exponent_loop :: "nat \<Rightarrow> nat \<Rightarrow> bool \<Rightarrow> fmt_state \<Rightarrow> fmt_exit + fmt_state" where
  "fmt_exponent_loop start end trailing st =
     (if exponent st > 0
      then (case BN_FORMAT_PUSH start end trailing 0 st of
              Inl e \<Rightarrow> Inl e
            | Inr st' \<Rightarrow> fmt_exponent_loop start end trailing (st'\<lparr>exponent := exponent st' - 1\<rparr>))
      else Inr st)"
  by pat_completeness auto
termination
  by (relation "measure (\<lambda>(start, end, trailing, st). nat (exponent st))")
     (auto dest: BN_FORMAT_PUSH_exponent)

text \<open>
  The loop over \<open>digits / 3\<close> groups of three digits; the first argument counts the
  rounds that are left.
\<close>

fun fmt_triples_loop :: "nat \<Rightarrow> nat \<Rightarrow> nat \<Rightarrow> bool \<Rightarrow> bignum256 \<Rightarrow> fmt_exit + fmt_state \<Rightarrow> fmt_exit + bignum256 \<times> fmt_state" where
  "fmt_triples_loop n start end trailing val (Inl e) = Inl e"
| "fmt_triples_loop 0 start end trailing val (Inr st) = Inr (val, st)"
| "fmt_triples_loop (Suc n) start end trailing val (Inr st) =
     (case bn_divmod1000 val of
        (val, limb) \<Rightarrow>
          fmt_triples_loop n start end trailing val
            (fmt_push start end trailing (limb div 10 div 10 mod 10)
               (fmt_push start end trailing (limb div 10 mod 10)
                  (BN_FORMAT_PUSH start end trailing (limb mod 10) st))))"

text \<open>The \<open>switch (digits % 3)\<close> with its fall-through from case 2 into case 1.\<close>

fun fmt_rest :: "uint32 \<Rightarrow> nat \<Rightarrow> nat \<Rightarrow> bool \<Rightarrow> fmt_exit + bignum256 \<times> fmt_state \<Rightarrow> fmt_exit + fmt_state" where
  "fmt_rest digits start end trailing (Inl e) = Inl e"
| "fmt_rest digits start end trailing (Inr (val, st)) =
     (if digits mod 3 \<noteq> 0
      then (case bn_divmod1000 val of
              (val, limb) \<Rightarrow>
                if digits mod 3 = 2
                then fmt_push start end trailing (limb div 10 mod 10)
                       (BN_FORMAT_PUSH start end trailing (limb mod 10) st)
                else if digits mod 3 = 1
                then BN_FORMAT_PUSH start end trailing (limb mod 10) st
                else Inr st)
      else Inr st)"

text \<open>\<open>while (decimals > 0 || str[0] == '\0' || str[0] == '.') BN_FORMAT_PUSH(0);\<close>\<close>

definition fmt_pending :: "fmt_state \<Rightarrow> bool" where
  "fmt_pending st \<longleftrightarrow>
     decimals st > 0 \<or> out st ! str st = CHR 0x00 \<or> out st ! str st = CHR ''.''"

definition fmt_measure :: "fmt_state \<Rightarrow> nat" where
  "fmt_measure st =
     nat (- exponent st) + 2 * unat (decimals st) +
     (if out st ! str st = CHR 0x00 \<or> out st ! str st = CHR ''.'' then 1 else 0)"

lemma BN_FORMAT_PUSH_measure:
  assumes "BN_FORMAT_PUSH start end trailing 0 st = Inr st'" "fmt_pending st"
  shows "fmt_measure st' < fmt_measure st"
proof (cases "exponent st < 0")
  case True
  with assms(1) have "st' = st\<lparr>exponent := exponent st + 1\<rparr>"
    by (simp add: BN_FORMAT_PUSH_def)
  with True show ?thesis by (simp add: fmt_measure_def)
next
  case False
  show ?thesis
  proof (cases "decimals st = 0")
    case True
    with False assms(1)
    have "out st' ! str st' = CHR ''0''" "decimals st' = decimals st" "exponent st' = exponent st"
      by (auto simp: BN_FORMAT_PUSH_def BN_FORMAT_PUSH_CHECKED_def Let_def
               char_of_48 split: sum.splits if_splits)
    moreover from True assms(2) have "out st ! str st = CHR 0x00 \<or> out st ! str st = CHR ''.''"
      by (simp add: fmt_pending_def)
    ultimately show ?thesis by (simp add: fmt_measure_def)
  next
    case nz: False
    then have pos: "0 < unat (decimals st)" by (simp add: unat_gt_0)
    have d: "unat (decimals st - 1) = unat (decimals st) - 1"
      using nz by (simp add: unat_minus_one)
    from False assms(1) nz have "decimals st' = decimals st - 1" "exponent st' = exponent st"
      by (auto simp: BN_FORMAT_PUSH_def BN_FORMAT_PUSH_CHECKED_def Let_def
               word_greater_zero_iff split: sum.splits if_splits)
    with pos d show ?thesis by (auto simp: fmt_measure_def)
  qed
qed

function fmt_final_loop :: "nat \<Rightarrow> nat \<Rightarrow> bool \<Rightarrow> fmt_state \<Rightarrow> fmt_exit + fmt_state" where
  "fmt_final_loop start end trailing st =
     (if fmt_pending st
      then (case BN_FORMAT_PUSH start end trailing 0 st of
              Inl e \<Rightarrow> Inl e
            | Inr st' \<Rightarrow> fmt_final_loop start end trailing st')
      else Inr st)"
  by pat_completeness auto
termination
  by (relation "measure (\<lambda>(start, end, trailing, st). fmt_measure st)")
     (auto dest: BN_FORMAT_PUSH_measure)

fun fmt_final :: "nat \<Rightarrow> nat \<Rightarrow> bool \<Rightarrow> fmt_exit + fmt_state \<Rightarrow> fmt_exit + fmt_state" where
  "fmt_final start end trailing (Inl e) = Inl e"
| "fmt_final start end trailing (Inr st) = fmt_final_loop start end trailing st"

text \<open>The final \<open>memmove\<close> and the \<open>return\<close>.\<close>

fun fmt_finish :: "nat \<Rightarrow> fmt_exit + fmt_state \<Rightarrow> fmt_exit" where
  "fmt_finish prefixlen (Inl e) = e"
| "fmt_finish prefixlen (Inr st) =
     (let outlen = length (out st);
          len = outlen - str st
      in if outlen < prefixlen + len then OutOfBounds
         else Return (prefixlen + len - 1)
                (memcpy_at (out st) prefixlen (drop (str st) (out st))))"

definition bn_format :: "bignum256 \<Rightarrow> string option \<Rightarrow> string option \<Rightarrow> uint32 \<Rightarrow> int \<Rightarrow> bool \<Rightarrow> string \<Rightarrow> fmt_exit" where
  "bn_format amnt prefix suffix decimals0 exponent0 trailing out0 =
     (let outlen = length out0;
          prefixlen = (case prefix of None \<Rightarrow> 0 | Some p \<Rightarrow> length p);
          suffixlen = (case suffix of None \<Rightarrow> 0 | Some s \<Rightarrow> length s)
      in if outlen < prefixlen \<or> outlen < suffixlen + 1 then OutOfBounds
         else
           let out1 = (case prefix of None \<Rightarrow> out0 | Some p \<Rightarrow> memcpy_at out0 0 p);
               out2 = (case suffix of None \<Rightarrow> out1
                       | Some s \<Rightarrow> memcpy_at out1 (outlen - suffixlen - 1) s);
               out3 = out2[outlen - 1 := CHR 0x00];
               start = prefixlen;
               end = outlen - suffixlen - 1;
               val = amnt;
               st = \<lparr>out = out3, str = end,
                     exponent = (if bn_is_zero val then 0 else exponent0),
                     decimals = decimals0\<rparr>;
               digits = bn_digitcount val
           in fmt_finish prefixlen
                (fmt_final start end trailing
                  (fmt_rest digits start end trailing
                    (fmt_triples_loop (unat (digits div 3)) start end trailing val
                      (fmt_exponent_loop start end trailing st)))))"

text \<open>The C string held by a buffer: the bytes before the first NUL.\<close>

definition c_string :: "string \<Rightarrow> string" where
  "c_string buf = takeWhile (\<lambda>c. c \<noteq> CHR 0x00) buf"

text \<open>What a call returned and the C string it left in the buffer.\<close>

definition rendered :: "fmt_exit \<Rightarrow> (nat \<times> string) option" where
  "rendered e = (case e of OutOfBounds \<Rightarrow> None | Return n buf \<Rightarrow> Some (n, c_string buf))"


section \<open>Two runs of \<open>bn_format\<close> on buffers of different sizes\<close>

text \<open>
  The state \<open>s\<close> of a run on a buffer of \<open>m\<close> bytes and the state \<open>b\<close> of a run on a
  buffer of \<open>m + d\<close> bytes: the same distance from the end of the buffer, the same byte under
  \<open>str\<close>, the same counters, and \<open>str\<close> not below \<open>start\<close>.
\<close>

definition fmt_rel :: "nat \<Rightarrow> nat \<Rightarrow> nat \<Rightarrow> fmt_state \<Rightarrow> fmt_state \<Rightarrow> bool" where
  "fmt_rel m d start s b \<longleftrightarrow>
     str b = str s + d \<and> exponent b = exponent s \<and> decimals b = decimals s \<and>
     length (out s) = m \<and> length (out b) = m + d \<and> start \<le> str s \<and> str s < m \<and>
     out b ! str b = out s ! str s"

fun failed :: "fmt_exit \<Rightarrow> bool" where
  "failed (Return n buf) = (n = 0)"
| "failed OutOfBounds = False"

text \<open>The shorter run has failed, or both runs are still going and in step.\<close>

definition exit_sim :: "('a \<Rightarrow> 'b \<Rightarrow> bool) \<Rightarrow> fmt_exit + 'a \<Rightarrow> fmt_exit + 'b \<Rightarrow> bool" where
  "exit_sim R rs rb =
     (case rs of Inl e \<Rightarrow> failed e
      | Inr s \<Rightarrow> (case rb of Inl e \<Rightarrow> False | Inr b \<Rightarrow> R s b))"

definition val_rel :: "nat \<Rightarrow> nat \<Rightarrow> nat \<Rightarrow> bignum256 \<times> fmt_state \<Rightarrow> bignum256 \<times> fmt_state \<Rightarrow> bool" where
  "val_rel m d start vs vb \<longleftrightarrow> fst vs = fst vb \<and> fmt_rel m d start (snd vs) (snd vb)"

text \<open>\<open>prefix ? strlen(prefix) : 0\<close>\<close>

definition strlen_opt :: "string option \<Rightarrow> nat" where
  "strlen_opt s = (case s of None \<Rightarrow> 0 | Some p \<Rightarrow> length p)"

section \<open>The 32-bit words of an encoding\<close>

text \<open>
  The word that round \<open>i\<close> of \<open>bn_write_be\<close> and \<open>bn_write_le\<close> hands to \<open>write_be\<close>
  and \<open>write_le\<close>, and the \<open>temp\<close> that round \<open>n\<close> of the decoding loop starts with
  when it reads these words back.
\<close>

definition enc_word :: "bignum256 \<Rightarrow> nat \<Rightarrow> uint32" where
  "enc_word x i = push_bit (16 + 2 * i) (x ! (8 - i)) OR drop_bit (14 - 2 * i) (x ! (7 - i))"

definition dec_temp :: "bignum256 \<Rightarrow> nat \<Rightarrow> uint32" where
  "dec_temp x n = (if n = 0 then 0 else drop_bit (30 - 2 * (n - 1)) (enc_word x (8 - n)))"

text \<open>A value below \<open>2^256\<close>: limbs 0 to 7 have 30 bits, limb 8 has 16.\<close>

definition fits256 :: "bignum256 \<Rightarrow> bool" where
  "fits256 x \<longleftrightarrow> length x = 9 \<and> (\<forall>i<8. uint (x ! i) < 2 ^ 30) \<and> uint (x ! 8) < 2 ^ 16"


section \<open>Words and limb arrays\<close>

lemma mask30_numeral: "(0x3FFFFFFF :: 'a::len word) = mask 30"
  by (simp add: mask_eq_exp_minus_1)

lemma uint_and_mask30: "uint (w AND 0x3FFFFFFF :: 'a::len word) = uint w mod 2 ^ 30"
  unfolding mask30_numeral
  by (simp only: unsigned_take_bit_eq take_bit_eq_mod [where 'a = int] flip: take_bit_eq_mask)

lemma uint_drop_bit: "uint (drop_bit n w :: 'a::len word) = uint w div 2 ^ n"
proof -
  have "take_bit LENGTH('a) (uint w) = uint w"
    by (rule take_bit_int_eq_self) (use uint_lt2p [of w] in simp_all)
  then show ?thesis
    by (simp only: unsigned_drop_bit_eq drop_bit_eq_div [where 'a = int])
qed

lemma uint_ucast_32_64: "uint (ucast (w :: uint32) :: uint64) = uint w"
proof -
  have "uint w < 2 ^ 64" using uint_lt2p [of w] by simp
  then have "take_bit 64 (uint w) = uint w"
    by (intro take_bit_int_eq_self) simp_all
  then show ?thesis by (simp add: unsigned_ucast_eq)
qed

lemma uint_of_int_eq:
  "0 \<le> z \<Longrightarrow> z < 2 ^ LENGTH('a) \<Longrightarrow> uint (word_of_int z :: 'a::len word) = z"
  by (simp add: uint_word_of_int_eq take_bit_int_eq_self)

lemma div_2p30_le:
  fixes z :: int
  assumes "0 \<le> z" "z < c * 2 ^ 30"
  shows "z div 2 ^ 30 < c" "0 \<le> z div 2 ^ 30"
proof -
  have "z < c * 1073741824" using assms by simp
  then have "z div 1073741824 < c" using assms(1) by arith
  then show "z div 2 ^ 30 < c" by simp
  show "0 \<le> z div 2 ^ 30" using assms(1) by (simp add: pos_imp_zdiv_nonneg_iff)
qed

lemma limb_lt_iff: "(w :: uint32) < 0x40000000 \<longleftrightarrow> uint w < 2 ^ 30"
  by (simp add: word_less_def)

lemma limbs_upto_0 [simp]: "limbs_upto 0 a = 0"
  by (simp add: limbs_upto_def)

lemma limbs_upto_Suc: "limbs_upto (Suc n) a = limbs_upto n a + uint (a ! n) * 2 ^ (30 * n)"
  by (simp add: limbs_upto_def)

lemma limbs_upto_update_ge: "n \<le> i \<Longrightarrow> limbs_upto n (a[i := v]) = limbs_upto n a"
  by (simp add: limbs_upto_def)

lemma limbs_upto_nonneg: "0 \<le> limbs_upto n a"
  by (simp add: limbs_upto_def sum_nonneg)

lemma bn_normalized_nth: "bn_normalized a \<Longrightarrow> i < 9 \<Longrightarrow> a ! i < 0x40000000"
  by (simp add: bn_normalized_def list_all_length)

lemma bn_normalizedI: "length a = 9 \<Longrightarrow> (\<forall>i<9. a ! i < 0x40000000) \<Longrightarrow> bn_normalized a"
  by (simp add: bn_normalized_def list_all_length)

lemma limbs_upto_bound:
  "(\<forall>i<n. a ! i < 0x40000000) \<Longrightarrow> limbs_upto n a < 2 ^ (30 * n)"
proof (induction n)
  case 0
  then show ?case by simp
next
  case (Suc n)
  define P :: int where "P = 2 ^ (30 * n)"
  have "limbs_upto n a < P" using Suc by (simp add: P_def)
  moreover have "uint (a ! n) \<le> 1073741823"
    using Suc.prems [rule_format, of n] by (simp add: limb_lt_iff)
  then have "uint (a ! n) * P \<le> 1073741823 * P"
    by (rule mult_right_mono) (simp add: P_def)
  moreover have "(2::int) ^ (30 * Suc n) = 1073741824 * P"
    by (simp add: P_def power_add)
  ultimately show ?case
    unfolding limbs_upto_Suc P_def [symmetric] by linarith
qed


section \<open>Values and records of the predicates\<close>

lemma lk_bind_fst: "fst (lk_bind m f) = fst (f (fst m))"
  by (simp add: lk_bind_def split: prod.splits)

lemma lk_bind_snd: "snd (lk_bind m f) = snd m @ snd (f (fst m))"
  by (simp add: lk_bind_def split: prod.splits)

lemma lk_for_up_value:
  "fst (lk_for_up i n body m) = fold (\<lambda>i s. fst (body i s)) [i..<n] (fst m)"
proof (induction i n body m rule: lk_for_up.induct)
  case (1 i n body m)
  show ?case
  proof (cases "i < n")
    case True
    with "1.IH" show ?thesis
      by (subst lk_for_up.simps) (simp add: upt_conv_Cons lk_bind_fst)
  next
    case False
    then show ?thesis
      by (subst lk_for_up.simps) (simp add: lk_bind_fst lk_return_def)
  qed
qed

lemma lk_for_down_value:
  "fst (lk_for_down (int n - 1) body m)
     = fold (\<lambda>i s. fst (body i s)) (rev [0..<n]) (fst m)"
proof (induction n arbitrary: m)
  case 0
  show ?case
    by (subst lk_for_down.simps) (simp add: lk_bind_fst lk_return_def)
next
  case (Suc n)
  have "int (Suc n) - 1 - 1 = int n - 1" by simp
  with Suc [of "lk_bind m (\<lambda>s. lk_bind (lk_test (int (Suc n) - 1 \<ge> 0)) (\<lambda>c. body (nat (int (Suc n) - 1)) s))"]
  show ?case
    by (subst lk_for_down.simps) (simp add: lk_bind_fst)
qed

text \<open>
  A loop whose counter does not depend on the data and whose body reveals the same
  whatever the data reveals the same as a whole.
\<close>

lemma lk_for_up_trace:
  assumes "\<And>i s s'. snd (body i s) = snd (body' i s')" "snd m = snd m'"
  shows "snd (lk_for_up i n body m) = snd (lk_for_up i n body' m')"
  using assms
proof (induction i n body m arbitrary: m' rule: lk_for_up.induct)
  case (1 i n body m)
  show ?case
  proof (cases "i < n")
    case True
    have "snd (lk_bind m (\<lambda>s. lk_bind (lk_test (i < n)) (\<lambda>c. body i s)))
        = snd (lk_bind m' (\<lambda>s. lk_bind (lk_test (i < n)) (\<lambda>c. body' i s)))"
      using "1.prems"(2) "1.prems"(1) [of i "fst m" "fst m'"] by (simp add: lk_bind_snd)
    from "1.IH" [OF True "1.prems"(1) this] True show ?thesis
      by (subst (1 2) lk_for_up.simps) simp
  next
    case False
    with "1.prems"(2) show ?thesis
      by (subst (1 2) lk_for_up.simps) (simp add: lk_bind_snd lk_return_def)
  qed
qed

lemma lk_for_down_trace:
  assumes "\<And>i s s'. snd (body i s) = snd (body' i s')" "snd m = snd m'"
  shows "snd (lk_for_down i body m) = snd (lk_for_down i body' m')"
  using assms
proof (induction i body m arbitrary: m' rule: lk_for_down.induct)
  case (1 i body m)
  show ?case
  proof (cases "i \<ge> 0")
    case True
    have "snd (lk_bind m (\<lambda>s. lk_bind (lk_test (i \<ge> 0)) (\<lambda>c. body (nat i) s)))
        = snd (lk_bind m' (\<lambda>s. lk_bind (lk_test (i \<ge> 0)) (\<lambda>c. body' (nat i) s)))"
      using "1.prems"(2) "1.prems"(1) [of "nat i" "fst m" "fst m'"] by (simp add: lk_bind_snd)
    from "1.IH" [OF True "1.prems"(1) this] True show ?thesis
      by (subst (1 2) lk_for_down.simps) simp
  next
    case False
    with "1.prems"(2) show ?thesis
      by (subst (1 2) lk_for_down.simps) (simp add: lk_bind_snd lk_return_def)
  qed
qed

lemma bn_is_zero_round_trace: "snd (bn_is_zero_round a i s) = snd (bn_is_zero_round a' i s')"
  by (simp add: bn_is_zero_round_def lk_bind_snd lk_load_def lk_return_def)

lemma bn_is_equal_round_trace:
  "snd (bn_is_equal_round a b i s) = snd (bn_is_equal_round a' b' i s')"
  by (simp add: bn_is_equal_round_def lk_bind_snd lk_load_def lk_return_def)

lemma bn_is_less_round_trace:
  "snd (bn_is_less_round a b i s) = snd (bn_is_less_round a' b' i s')"
  by (cases s; cases s') (simp add: lk_bind_snd lk_load_def lk_return_def)

text \<open>The values of the predicates, without the record.\<close>

lemma bn_is_zero_round_value: "fst (bn_is_zero_round a i result) = result OR a ! i"
  by (simp add: bn_is_zero_round_def lk_bind_fst lk_load_def lk_return_def)

lemma bn_is_equal_round_value:
  "fst (bn_is_equal_round a b i result) = result OR (a ! i XOR b ! i)"
  by (simp add: bn_is_equal_round_def lk_bind_fst lk_load_def lk_return_def)

lemma bn_is_zero_fold:
  "bn_is_zero a = (fold (\<lambda>i result. result OR a ! i) [0..<9] (0 :: uint32) = 0)"
  by (simp only: bn_is_zero_def bn_is_zero_lk_def lk_bind_fst lk_for_up_value lk_return_def
        bn_is_zero_round_value fst_conv)

lemma bn_is_equal_fold:
  "bn_is_equal a b = (fold (\<lambda>i result. result OR (a ! i XOR b ! i)) [0..<9] (0 :: uint32) = 0)"
  by (simp only: bn_is_equal_def bn_is_equal_lk_def lk_bind_fst lk_for_up_value lk_return_def
        bn_is_equal_round_value fst_conv)

lemma bn_is_less_rounds:
  "fold (\<lambda>i s. fst (bn_is_less_round a b i s)) (rev [0..<n]) rs = bn_is_less_loop n a b rs"
  by (induction n arbitrary: rs)
     (auto simp: split_paired_all lk_bind_fst lk_load_def lk_return_def)

lemma bn_is_less_loop_eq:
  "bn_is_less a b = (case bn_is_less_loop 9 a b (0, 0) of (res1, res2) \<Rightarrow> res1 > res2)"
proof -
  have "fst (lk_for_down 8 (bn_is_less_round a b) (lk_return (0, 0)))
      = bn_is_less_loop 9 a b (0, 0)"
    using lk_for_down_value [of 9 "bn_is_less_round a b" "lk_return (0, 0)"]
    by (simp add: bn_is_less_rounds lk_return_def)
  then show ?thesis
    by (simp add: bn_is_less_def bn_is_less_lk_def lk_bind_fst lk_return_def split: prod.splits)
qed

text \<open>
  C9: \<open>bn_is_zero\<close>, \<open>bn_is_equal\<close> and \<open>bn_is_less\<close> are the values of runs whose
  record (every loop test with its outcome, every limb index read) is the same for any
  two inputs, normalized or not: no early exit, no branch on a limb, no index computed
  from a limb.
\<close>

theorem predicates_constant_time:
  "bn_is_zero a = fst (bn_is_zero_lk a) \<and>
   bn_is_equal a b = fst (bn_is_equal_lk a b) \<and>
   bn_is_less a b = fst (bn_is_less_lk a b) \<and>
   snd (bn_is_zero_lk a) = snd (bn_is_zero_lk a') \<and>
   snd (bn_is_equal_lk a b) = snd (bn_is_equal_lk a' b') \<and>
   snd (bn_is_less_lk a b) = snd (bn_is_less_lk a' b')"
proof -
  have z: "snd (lk_for_up 0 9 (bn_is_zero_round a) (lk_return 0))
         = snd (lk_for_up 0 9 (bn_is_zero_round a') (lk_return 0))"
    by (rule lk_for_up_trace) (simp_all add: bn_is_zero_round_trace [of a _ _ a'])
  have e: "snd (lk_for_up 0 9 (bn_is_equal_round a b) (lk_return 0))
         = snd (lk_for_up 0 9 (bn_is_equal_round a' b') (lk_return 0))"
    by (rule lk_for_up_trace) (simp_all add: bn_is_equal_round_trace [of a b _ _ a' b'])
  have l: "snd (lk_for_down 8 (bn_is_less_round a b) (lk_return (0, 0)))
         = snd (lk_for_down 8 (bn_is_less_round a' b') (lk_return (0, 0)))"
    by (rule lk_for_down_trace) (simp_all add: bn_is_less_round_trace [of a b _ _ a' b'])
  show ?thesis
    using z e l
    by (simp add: bn_is_zero_def bn_is_equal_def bn_is_less_def bn_is_zero_lk_def
          bn_is_equal_lk_def bn_is_less_lk_def lk_bind_snd lk_return_def split: prod.splits)
qed

section \<open>Comparison\<close>

lemma less_loop_swap:
  "bn_is_less_loop n b a (r2, r1) = (case bn_is_less_loop n a b (r1, r2) of (x, y) \<Rightarrow> (y, x))"
  by (induction n arbitrary: r1 r2) auto

lemma xor_eq_0_word: "(a XOR b = 0) \<longleftrightarrow> a = (b::'a::len word)"
  by (metis xor.assoc xor_self_eq xor.right_neutral)

lemma less_step_bit:
  assumes "j < 32"
  shows "bit (r * 2 OR of_bool c :: uint32) j \<longleftrightarrow> (if j = 0 then c else bit r (j - 1))"
proof -
  have "r * 2 = push_bit 1 r" by simp
  moreover have "bit (push_bit 1 r) j \<longleftrightarrow> j \<noteq> 0 \<and> bit r (j - 1)"
    using assms by (simp only: bit_push_bit_iff possible_bit_word) auto
  ultimately show ?thesis
    by (simp only: bit_or_iff bit_of_bool_iff) auto
qed

lemma less_loop_bit:
  "j < 32 \<Longrightarrow> bit (fst (bn_is_less_loop n a b (r1, r2))) j \<longleftrightarrow>
     (if j < n then a ! j < b ! j else bit r1 (j - n))"
  "j < 32 \<Longrightarrow> bit (snd (bn_is_less_loop n a b (r1, r2))) j \<longleftrightarrow>
     (if j < n then a ! j > b ! j else bit r2 (j - n))"
  by (induction n arbitrary: r1 r2 j) (simp_all add: less_step_bit less_Suc_eq Suc_diff_le)

lemma eq_fold_bit:
  "fold (\<lambda>i result. result OR (a ! i XOR b ! i)) [0..<n] (r::uint32) = 0 \<longleftrightarrow>
     r = 0 \<and> (\<forall>i<n. a ! i = b ! i)"
  by (induction n arbitrary: r) (auto simp: less_Suc_eq or_eq_0_iff xor_eq_0_word)

lemma less_loop_eq_iff:
  assumes "n \<le> 32"
  shows "fst (bn_is_less_loop n a b (0, 0)) = snd (bn_is_less_loop n a b (0, 0))
     \<longleftrightarrow> (\<forall>i<n. a ! i = b ! i)"
proof
  assume eq: "fst (bn_is_less_loop n a b (0, 0)) = snd (bn_is_less_loop n a b (0, 0))"
  show "\<forall>i<n. a ! i = b ! i"
  proof (intro allI impI)
    fix i assume "i < n"
    with assms have i32: "i < 32" by simp
    from eq have "bit (fst (bn_is_less_loop n a b (0, 0))) i = bit (snd (bn_is_less_loop n a b (0, 0))) i"
      by simp
    with \<open>i < n\<close> i32 have "(a ! i < b ! i) = (b ! i < a ! i)"
      by (simp add: less_loop_bit)
    then show "a ! i = b ! i" by (meson not_less_iff_gr_or_eq)
  qed
next
  assume all: "\<forall>i<n. a ! i = b ! i"
  show "fst (bn_is_less_loop n a b (0, 0)) = snd (bn_is_less_loop n a b (0, 0))"
  proof (rule bit_word_eqI)
    fix j assume "j < LENGTH(32)"
    then have "j < 32" by simp
    then show "bit (fst (bn_is_less_loop n a b (0, 0))) j = bit (snd (bn_is_less_loop n a b (0, 0))) j"
      using all by (simp add: less_loop_bit)
  qed
qed

text \<open>
  C5: for normalized \<open>a\<close> and \<open>b\<close>, exactly one of \<open>bn_is_less a b\<close>,
  \<open>bn_is_equal a b\<close> and \<open>bn_is_less b a\<close> holds.
\<close>

theorem bn_compare_trichotomy:
  assumes "bn_normalized a" "bn_normalized b"
  shows "(bn_is_less a b \<and> \<not> bn_is_equal a b \<and> \<not> bn_is_less b a) \<or>
         (\<not> bn_is_less a b \<and> bn_is_equal a b \<and> \<not> bn_is_less b a) \<or>
         (\<not> bn_is_less a b \<and> \<not> bn_is_equal a b \<and> bn_is_less b a)"
proof -
  obtain r1 r2 where r: "bn_is_less_loop 9 a b (0, 0) = (r1, r2)"
    by (cases "bn_is_less_loop 9 a b (0, 0)")
  then have sw: "bn_is_less_loop 9 b a (0, 0) = (r2, r1)"
    by (simp add: less_loop_swap [of 9 b a 0 0])
  have "r1 = r2 \<longleftrightarrow> (\<forall>i<9. a ! i = b ! i)"
    using less_loop_eq_iff [of 9 a b] r by simp
  then have e: "bn_is_equal a b \<longleftrightarrow> r1 = r2"
    by (simp add: bn_is_equal_fold eq_fold_bit)
  show ?thesis
    unfolding e unfolding bn_is_less_loop_eq r sw by auto
qed


theorem bn_compare_trichotomy_witness:
  "bn_is_less [5, 0, 0, 0, 0, 0, 0, 0, 0] [7, 0, 0, 0, 0, 0, 0, 0, 0] \<and>
   \<not> bn_is_equal [5, 0, 0, 0, 0, 0, 0, 0, 0] [7, 0, 0, 0, 0, 0, 0, 0, 0] \<and>
   \<not> bn_is_less [7, 0, 0, 0, 0, 0, 0, 0, 0] [5, 0, 0, 0, 0, 0, 0, 0, 0]"
proof -
  have a: "bn_normalized [5, 0, 0, 0, 0, 0, 0, 0, 0]" by code_simp
  have b: "bn_normalized [7, 0, 0, 0, 0, 0, 0, 0, 0]" by code_simp
  have l: "bn_is_less [5, 0, 0, 0, 0, 0, 0, 0, 0] [7, 0, 0, 0, 0, 0, 0, 0, 0]" by code_simp
  show ?thesis
    using bn_compare_trichotomy [OF a b] l by blast
qed


section \<open>Subtraction\<close>

lemma sub_round_uint:
  fixes a b :: bignum256 and tmp :: uint32
  assumes "a ! n < 0x40000000" "b ! n < 0x40000000" "uint tmp \<le> 1"
  shows "uint (tmp + (0x3FFFFFFF + a ! n - b ! n)) = uint tmp + 1073741823 + uint (a ! n) - uint (b ! n)"
proof -
  let ?z = "uint tmp + 1073741823 + uint (a ! n) - uint (b ! n)"
  have e: "tmp + (0x3FFFFFFF + a ! n - b ! n) = word_of_int ?z" by simp
  have an: "uint (a ! n) < 1073741824" and bn: "uint (b ! n) < 1073741824"
    using assms by (simp_all add: limb_lt_iff)
  have "0 \<le> ?z"
    using assms(3) an bn uint_ge_0 [of tmp] uint_ge_0 [of "a ! n"] by linarith
  moreover have "?z < 4294967296"
    using assms(3) an bn uint_ge_0 [of "b ! n"] by linarith
  then have "?z < 2 ^ LENGTH(32)" by simp
  ultimately show ?thesis
    unfolding e by (rule uint_of_int_eq)
qed

lemma sub_loop_inv:
  assumes "\<forall>i<n. a ! i < 0x40000000" "\<forall>i<n. b ! i < 0x40000000" "n \<le> length res"
    and "fold (bn_subtract_round a b) [0..<n] (1, res) = (tmp, r)"
  shows "length r = length res \<and> (\<forall>i<n. r ! i < 0x40000000) \<and> uint tmp \<le> 1 \<and>
         limbs_upto n r + 2 ^ (30 * n) * uint tmp = limbs_upto n a - limbs_upto n b + 2 ^ (30 * n)"
  using assms
proof (induction n arbitrary: tmp r)
  case 0
  then show ?case by simp
next
  case (Suc n)
  obtain t0 r0 where f0: "fold (bn_subtract_round a b) [0..<n] (1, res) = (t0, r0)"
    by (cases "fold (bn_subtract_round a b) [0..<n] (1, res)")
  define P :: int where "P = 2 ^ (30 * n)"
  have PS: "(2::int) ^ (30 * Suc n) = 1073741824 * P"
    by (simp add: P_def power_add)
  from Suc.IH [OF _ _ _ f0] Suc.prems
  have ih: "length r0 = length res" "\<forall>i<n. r0 ! i < 0x40000000" "uint t0 \<le> 1"
    "limbs_upto n r0 + P * uint t0 = limbs_upto n a - limbs_upto n b + P"
    by (simp_all add: P_def)
  define T where "T = t0 + (0x3FFFFFFF + a ! n - b ! n)"
  have an': "a ! n < 0x40000000" and bn': "b ! n < 0x40000000"
    using Suc.prems by simp_all
  have T: "uint T = uint t0 + 1073741823 + uint (a ! n) - uint (b ! n)"
    unfolding T_def using an' bn' ih(3) by (rule sub_round_uint)
  have an: "uint (a ! n) < 1073741824" and bn: "uint (b ! n) < 1073741824"
    using an' bn' by (simp_all add: limb_lt_iff)
  from Suc.prems(4) f0 have res: "tmp = drop_bit 30 T" "r = r0[n := T AND 0x3FFFFFFF]"
    by (simp_all add: T_def Let_def)
  have len: "length r = length res" using res ih by simp
  have nlt: "n < length r0" using ih Suc.prems by simp
  have rn: "r ! n = T AND 0x3FFFFFFF" using res nlt by simp
  have lim: "\<forall>i<Suc n. r ! i < 0x40000000"
  proof (intro allI impI)
    fix i assume "i < Suc n"
    show "r ! i < 0x40000000"
    proof (cases "i = n")
      case True
      then show ?thesis using rn by (simp add: limb_lt_iff uint_and_mask30)
    next
      case False
      with \<open>i < Suc n\<close> have "i < n" by simp
      then show ?thesis using res ih(2) by simp
    qed
  qed
  have "0 \<le> uint T" by simp
  moreover have "uint T < 2147483648"
    using T an ih(3) uint_ge_0 [of "b ! n"] by linarith
  then have "uint T < 2 * 2 ^ 30" by simp
  ultimately have "uint T div 2 ^ 30 < 2" by (rule div_2p30_le)
  then have tmp1: "uint tmp \<le> 1"
    unfolding res uint_drop_bit by simp
  have "limbs_upto (Suc n) r = limbs_upto n r0 + (uint T mod 2 ^ 30) * P"
    using rn res by (simp add: limbs_upto_Suc limbs_upto_update_ge uint_and_mask30 P_def)
  moreover have "P * (uint T mod 2 ^ 30) + P * (2 ^ 30 * (uint T div 2 ^ 30)) = P * uint T"
    by (simp flip: distrib_left)
  ultimately have "limbs_upto (Suc n) r + 2 ^ (30 * Suc n) * uint tmp = limbs_upto n r0 + P * uint T"
    unfolding res uint_drop_bit PS by (simp add: algebra_simps)
  also have "\<dots> = limbs_upto (Suc n) a - limbs_upto (Suc n) b + 2 ^ (30 * Suc n)"
    using ih(4) unfolding T PS limbs_upto_Suc P_def [symmetric] by (simp add: algebra_simps)
  finally show ?case using len lim tmp1 by simp
qed

lemma bn_val_bounds:
  "bn_normalized a \<Longrightarrow> 0 \<le> bn_val a \<and> bn_val a < 2 ^ 270"
  using limbs_upto_bound [of 9 a] limbs_upto_nonneg [of 9 a]
  by (simp add: bn_normalized_nth bn_val_def)

lemma bn_subtract_val:
  assumes "bn_normalized a" "bn_normalized b" "length res = 9"
  shows "bn_normalized (bn_subtract a b res)"
    and "bn_val (bn_subtract a b res) = (bn_val a - bn_val b) mod 2 ^ 270"
proof -
  obtain tmp r where f: "fold (bn_subtract_round a b) [0..<9] (1, res) = (tmp, r)"
    by (cases "fold (bn_subtract_round a b) [0..<9] (1, res)")
  have inv: "length r = length res \<and> (\<forall>i<9. r ! i < 0x40000000) \<and> uint tmp \<le> 1 \<and>
         limbs_upto 9 r + 2 ^ (30 * 9) * uint tmp = limbs_upto 9 a - limbs_upto 9 b + 2 ^ (30 * 9)"
    using assms by (intro sub_loop_inv [OF _ _ _ f]) (simp_all add: bn_normalized_nth)
  have r: "bn_subtract a b res = r" by (simp add: bn_subtract_def f)
  show n: "bn_normalized (bn_subtract a b res)"
    using inv assms(3) by (intro bn_normalizedI) (simp_all add: r)
  have eq: "bn_val r + 2 ^ 270 * uint tmp = bn_val a - bn_val b + 2 ^ 270"
    using inv by (simp add: bn_val_def)
  have "bn_val r = (bn_val r + 2 ^ 270 * uint tmp) mod 2 ^ 270"
    using bn_val_bounds [OF n] by (simp add: r)
  also have "\<dots> = (bn_val a - bn_val b) mod 2 ^ 270"
    unfolding eq by simp
  finally show "bn_val (bn_subtract a b res) = (bn_val a - bn_val b) mod 2 ^ 270"
    by (simp add: r)
qed


text \<open>
  C10: \<open>bn_subtract\<close> is total on normalized inputs and wraps modulo \<open>2^270\<close>: the
  result is normalized, its value is \<open>(a - b) mod 2^270\<close>, and it is exactly
  \<open>a - b\<close> whenever \<open>a \<ge> b\<close>.
\<close>

theorem bn_subtract_wraps:
  assumes "bn_normalized a" "bn_normalized b" "length res = 9"
  shows "bn_normalized (bn_subtract a b res) \<and>
         bn_val (bn_subtract a b res) = (bn_val a - bn_val b) mod 2 ^ 270 \<and>
         (bn_val b \<le> bn_val a \<longrightarrow> bn_val (bn_subtract a b res) = bn_val a - bn_val b)"
proof -
  have v: "bn_val (bn_subtract a b res) = (bn_val a - bn_val b) mod 2 ^ 270"
    using assms by (rule bn_subtract_val)
  have "bn_val a - bn_val b < 2 ^ 270"
    using bn_val_bounds [OF assms(1)] bn_val_bounds [OF assms(2)] by linarith
  then have "bn_val b \<le> bn_val a \<longrightarrow> (bn_val a - bn_val b) mod 2 ^ 270 = bn_val a - bn_val b"
    by simp
  with v bn_subtract_val(1) [OF assms] show ?thesis by simp
qed

theorem bn_subtract_wraps_witness:
  "bn_val (bn_subtract [5, 0, 0, 0, 0, 0, 0, 0, 0] [7, 0, 0, 0, 0, 0, 0, 0, 0] (replicate 9 0))
     = 2 ^ 270 - 2"
proof -
  have a: "bn_normalized [5, 0, 0, 0, 0, 0, 0, 0, 0]" by code_simp
  have b: "bn_normalized [7, 0, 0, 0, 0, 0, 0, 0, 0]" by code_simp
  have v: "bn_val [5, 0, 0, 0, 0, 0, 0, 0, 0] = 5" "bn_val [7, 0, 0, 0, 0, 0, 0, 0, 0] = 7"
    by code_simp+
  show ?thesis
    using bn_subtract_wraps [OF a b, of "replicate 9 0"] by (simp add: v)
qed


section \<open>Decimal formatting\<close>

text \<open>
  C6, as the code has it: in a buffer of 16 bytes, whatever it held before, the value 0
  with no prefix, no suffix, \<open>decimals = 0\<close>, \<open>exponent = 0\<close> is rendered as \<open>0\<close>;
  the value 100000000 with \<open>decimals = 8\<close> is rendered as \<open>1.0\<close> when trailing zeros
  are suppressed (one digit stays after the point) and as \<open>1.00000000\<close> when they are
  kept; each call returns the length of what it wrote.
\<close>

theorem bn_format_scenarios:
  "rendered (bn_format [0, 0, 0, 0, 0, 0, 0, 0, 0] None None 0 0 False
      [c0, c1, c2, c3, c4, c5, c6, c7, c8, c9, c10, c11, c12, c13, c14, c15]) = Some (1, ''0'') \<and>
   rendered (bn_format [100000000, 0, 0, 0, 0, 0, 0, 0, 0] None None 8 0 False
      [c0, c1, c2, c3, c4, c5, c6, c7, c8, c9, c10, c11, c12, c13, c14, c15]) = Some (3, ''1.0'') \<and>
   rendered (bn_format [100000000, 0, 0, 0, 0, 0, 0, 0, 0] None None 8 0 True
      [c0, c1, c2, c3, c4, c5, c6, c7, c8, c9, c10, c11, c12, c13, c14, c15])
     = Some (10, ''1.00000000'')"
proof -
  let ?buf = "[c0, c1, c2, c3, c4, c5, c6, c7, c8, c9, c10, c11, c12, c13, c14, c15]"
  have 1: "bn_format [0, 0, 0, 0, 0, 0, 0, 0, 0] None None 0 0 False ?buf
      = Return 1 [CHR ''0'', CHR 0x00, c2, c3, c4, c5, c6, c7, c8, c9, c10, c11, c12, c13,
                  CHR ''0'', CHR 0x00]"
    by code_simp
  have 2: "bn_format [100000000, 0, 0, 0, 0, 0, 0, 0, 0] None None 8 0 False ?buf
      = Return 3 [CHR ''1'', CHR ''.'', CHR ''0'', CHR 0x00, c4, c5, c6, c7, c8, c9, c10, c11,
                  CHR ''1'', CHR ''.'', CHR ''0'', CHR 0x00]"
    by code_simp
  have 3: "bn_format [100000000, 0, 0, 0, 0, 0, 0, 0, 0] None None 8 0 True ?buf
      = Return 10 [CHR ''1'', CHR ''.'', CHR ''0'', CHR ''0'', CHR ''0'', CHR ''0'', CHR ''0'',
                   CHR ''0'', CHR ''0'', CHR ''0'', CHR 0x00, CHR ''0'', CHR ''0'', CHR ''0'',
                   CHR ''0'', CHR 0x00]"
    by code_simp
  show ?thesis
    unfolding 1 2 3 by (simp add: rendered_def c_string_def)
qed

text \<open>The rendering \<open>1.\<close> of the claim is not what the code writes.\<close>

theorem bn_format_scenarios_counterexample:
  "rendered (bn_format [100000000, 0, 0, 0, 0, 0, 0, 0, 0] None None 8 0 False
      (replicate 16 (CHR ''x''))) \<noteq> Some (2, ''1.'')"
proof -
  have "bn_format [100000000, 0, 0, 0, 0, 0, 0, 0, 0] None None 8 0 False (replicate 16 (CHR ''x''))
      = Return 3 (''1.0'' @ [CHR 0x00] @ replicate 8 (CHR ''x'') @ ''1.0'' @ [CHR 0x00])"
    by code_simp
  then show ?thesis
    by (simp add: rendered_def c_string_def)
qed

text \<open>
  C7: a buffer with no room for prefix, suffix and the terminating NUL.  The value 0 with
  prefix \<open>ab\<close> and suffix \<open>cd\<close> is rendered as \<open>ab0cd\<close>, which needs six bytes.  In a
  buffer of three bytes \<open>end\<close> lies below \<open>start\<close>; the test \<open>str == start\<close> of
  \<open>BN_FORMAT_PUSH_CHECKED\<close> never holds, the first digit is stored in front of the buffer
  and the call does not return 0.
\<close>

theorem bn_format_no_room:
  "bn_format [0, 0, 0, 0, 0, 0, 0, 0, 0] (Some ''ab'') (Some ''cd'') 0 0 False ''xxxxxx''
     = Return 5 [CHR ''a'', CHR ''b'', CHR ''0'', CHR ''c'', CHR ''d'', CHR 0x00] \<and>
   bn_format [0, 0, 0, 0, 0, 0, 0, 0, 0] (Some ''ab'') (Some ''cd'') 0 0 False ''xxx''
     = OutOfBounds"
  by code_simp

text \<open>
  Where the call does return 0 it has written to the buffer before: with a buffer of
  three bytes the value 12345 does not fit, and the buffer holds two digits and the NUL
  at the return.
\<close>

lemma bn_format_zero_return_writes:
  "bn_format [12345, 0, 0, 0, 0, 0, 0, 0, 0] None None 0 0 False ''xxx''
     = Return 0 [CHR ''4'', CHR ''5'', CHR 0x00]"
  by code_simp

subsection \<open>A buffer with room for prefix, suffix and NUL only\<close>

lemma exit_sim_bind:
  assumes "exit_sim R rs rb"
    "\<And>s b. rs = Inr s \<Longrightarrow> rb = Inr b \<Longrightarrow> R s b \<Longrightarrow> exit_sim R' (f s) (g b)"
  shows "exit_sim R' (case rs of Inl e \<Rightarrow> Inl e | Inr s \<Rightarrow> f s)
                     (case rb of Inl e \<Rightarrow> Inl e | Inr b \<Rightarrow> g b)"
proof (cases rs)
  case (Inl x)
  with assms(1) show ?thesis by (simp add: exit_sim_def)
next
  case r: (Inr s)
  with assms(1) obtain b where b: "rb = Inr b" "R s b"
    by (cases rb) (simp_all add: exit_sim_def)
  from assms(2) [OF r b] r b show ?thesis by simp
qed

lemma push_checked_sim:
  assumes "fmt_rel m d start s b"
  shows "exit_sim (fmt_rel m d start) (BN_FORMAT_PUSH_CHECKED start c s)
                                    (BN_FORMAT_PUSH_CHECKED start c b)"
  using assms
  by (auto simp: exit_sim_def fmt_rel_def BN_FORMAT_PUSH_CHECKED_def)

lemma exit_sim_Inr: "exit_sim R (Inr s) (Inr b) = R s b"
  by (simp add: exit_sim_def)

lemma push_first_sim:
  assumes r: "fmt_rel m d start s b"
  shows "exit_sim (fmt_rel m d start)
       (if P \<or> str s \<noteq> e \<or> decimals s \<le> 1
        then BN_FORMAT_PUSH_CHECKED start c s else Inr s)
       (if P \<or> str b \<noteq> e + d \<or> decimals b \<le> 1
        then BN_FORMAT_PUSH_CHECKED start c b else Inr b)"
proof -
  from r have c: "(str b \<noteq> e + d) = (str s \<noteq> e)" "decimals b = decimals s"
    by (auto simp: fmt_rel_def)
  show ?thesis
    unfolding c using push_checked_sim [OF r, of c] r
    by (simp add: exit_sim_Inr)
qed

lemma push_sim:
  assumes r: "fmt_rel m d start s b"
  shows "exit_sim (fmt_rel m d start) (BN_FORMAT_PUSH start e trailing n s)
                                    (BN_FORMAT_PUSH start (e + d) trailing n b)"
proof (cases "exponent s < 0")
  case True
  with r show ?thesis
    by (auto simp: BN_FORMAT_PUSH_def exit_sim_def fmt_rel_def)
next
  case False
  let ?dot = "\<lambda>st. if decimals st > 0
             then (if decimals st = 1
                   then BN_FORMAT_PUSH_CHECKED start CHR ''.'' (st\<lparr>decimals := decimals st - 1\<rparr>)
                   else Inr (st\<lparr>decimals := decimals st - 1\<rparr>))
             else Inr st"
  have dot: "exit_sim (fmt_rel m d start) (?dot s') (?dot b')" if r': "fmt_rel m d start s' b'" for s' b'
  proof -
    from r' have "fmt_rel m d start (s'\<lparr>decimals := decimals s' - 1\<rparr>) (b'\<lparr>decimals := decimals b' - 1\<rparr>)"
      by (auto simp: fmt_rel_def)
    from push_checked_sim [OF this] r' show ?thesis
      by (auto simp: exit_sim_def fmt_rel_def)
  qed
  note first = push_first_sim [OF r, of "n > 0 \<or> trailing" e "char_of (of_char CHR ''0'' + unat n)"]
  from False r have "\<not> exponent b < 0" by (simp add: fmt_rel_def)
  with False show ?thesis
    unfolding BN_FORMAT_PUSH_def
    using exit_sim_bind [OF first dot] by (simp add: disj_ac)
qed

lemma fmt_push_sim:
  assumes "exit_sim (fmt_rel m d start) rs rb"
  shows "exit_sim (fmt_rel m d start) (fmt_push start e trailing n rs)
                                    (fmt_push start (e + d) trailing n rb)"
proof (cases rs)
  case (Inl x)
  with assms show ?thesis by (simp add: exit_sim_def)
next
  case r: (Inr s)
  with assms obtain b where b: "rb = Inr b" "fmt_rel m d start s b"
    by (cases rb) (simp_all add: exit_sim_def)
  from push_sim [OF b(2)] b r show ?thesis by simp
qed

lemma exponent_loop_sim:
  "fmt_rel m d start s b \<Longrightarrow>
   exit_sim (fmt_rel m d start) (fmt_exponent_loop start e trailing s)
                              (fmt_exponent_loop start (e + d) trailing b)"
proof (induction start e trailing s arbitrary: b rule: fmt_exponent_loop.induct)
  case (1 start e trailing s)
  from "1.prems" have ex: "exponent b = exponent s" by (simp add: fmt_rel_def)
  show ?case
  proof (cases "exponent s > 0")
    case False
    with ex "1.prems" show ?thesis
      by (simp add: exit_sim_def)
  next
    case True
    have step: "exit_sim (fmt_rel m d start)
        (fmt_exponent_loop start e trailing (s'\<lparr>exponent := exponent s' - 1\<rparr>))
        (fmt_exponent_loop start (e + d) trailing (b'\<lparr>exponent := exponent b' - 1\<rparr>))"
      if "BN_FORMAT_PUSH start e trailing 0 s = Inr s'" "fmt_rel m d start s' b'" for s' b'
    proof -
      from that(2) have "fmt_rel m d start (s'\<lparr>exponent := exponent s' - 1\<rparr>)
                                        (b'\<lparr>exponent := exponent b' - 1\<rparr>)"
        by (auto simp: fmt_rel_def)
      from "1.IH" [OF True that(1) this] show ?thesis .
    qed
    have "exit_sim (fmt_rel m d start) (BN_FORMAT_PUSH start e trailing 0 s)
                                     (BN_FORMAT_PUSH start (e + d) trailing 0 b)"
      by (rule push_sim [OF "1.prems"])
    from exit_sim_bind [OF this step] True ex show ?thesis
      by (subst (1 2) fmt_exponent_loop.simps) simp
  qed
qed

lemma pending_sim: "fmt_rel m d start s b \<Longrightarrow> fmt_pending b = fmt_pending s"
  by (auto simp: fmt_rel_def fmt_pending_def)

lemma final_loop_sim:
  "fmt_rel m d start s b \<Longrightarrow>
   exit_sim (fmt_rel m d start) (fmt_final_loop start e trailing s)
                              (fmt_final_loop start (e + d) trailing b)"
proof (induction start e trailing s arbitrary: b rule: fmt_final_loop.induct)
  case (1 start e trailing s)
  note p = pending_sim [OF "1.prems"]
  show ?case
  proof (cases "fmt_pending s")
    case False
    with p "1.prems" show ?thesis
      by (simp add: exit_sim_def)
  next
    case True
    have "exit_sim (fmt_rel m d start) (BN_FORMAT_PUSH start e trailing 0 s)
                                     (BN_FORMAT_PUSH start (e + d) trailing 0 b)"
      by (rule push_sim [OF "1.prems"])
    from exit_sim_bind [OF this "1.IH" [OF True]] True p show ?thesis
      by (subst (1 2) fmt_final_loop.simps) simp
  qed
qed

lemma exit_sim_cases:
  assumes "exit_sim R rs rb"
  obtains (small_failed) x where "rs = Inl x" "failed x"
    | (both) s b where "rs = Inr s" "rb = Inr b" "R s b"
  using assms by (auto simp: exit_sim_def split: sum.splits)

lemma exit_sim_failed: "failed x \<Longrightarrow> exit_sim R (Inl x) rb"
  by (simp add: exit_sim_def)

lemma triples_Inl: "fmt_triples_loop n start e trailing val (Inl x) = Inl x"
  by (cases n) simp_all

lemma triples_sim:
  "exit_sim (fmt_rel m d start) rs rb \<Longrightarrow>
   exit_sim (val_rel m d start) (fmt_triples_loop n start e trailing val rs)
                              (fmt_triples_loop n start (e + d) trailing val rb)"
proof (induction n arbitrary: val rs rb)
  case 0
  from "0.prems" show ?case
    by (cases rule: exit_sim_cases)
       (simp_all add: exit_sim_failed exit_sim_Inr val_rel_def)
next
  case (Suc n)
  from Suc.prems show ?case
  proof (cases rule: exit_sim_cases)
    case (both s b)
    obtain val' limb where dm: "bn_divmod1000 val = (val', limb)"
      by (cases "bn_divmod1000 val")
    have "exit_sim (fmt_rel m d start)
            (fmt_push start e trailing (limb div 10 div 10 mod 10)
               (fmt_push start e trailing (limb div 10 mod 10)
                  (BN_FORMAT_PUSH start e trailing (limb mod 10) s)))
            (fmt_push start (e + d) trailing (limb div 10 div 10 mod 10)
               (fmt_push start (e + d) trailing (limb div 10 mod 10)
                  (BN_FORMAT_PUSH start (e + d) trailing (limb mod 10) b)))"
      by (intro fmt_push_sim push_sim both)
    from Suc.IH [OF this] both dm show ?thesis by simp
  qed (simp_all add: exit_sim_failed triples_Inl)
qed

lemma rest_sim:
  assumes "exit_sim (val_rel m d start) rs rb"
  shows "exit_sim (fmt_rel m d start) (fmt_rest digits start e trailing rs)
                                    (fmt_rest digits start (e + d) trailing rb)"
  using assms
proof (cases rule: exit_sim_cases)
  case (both vs vb)
  obtain val s b where v: "vs = (val, s)" "vb = (val, b)" and r: "fmt_rel m d start s b"
    using both(3) by (cases vs; cases vb) (simp add: val_rel_def)
  obtain val' limb where dm: "bn_divmod1000 val = (val', limb)"
    by (cases "bn_divmod1000 val")
  have 2: "exit_sim (fmt_rel m d start)
            (fmt_push start e trailing (limb div 10 mod 10)
               (BN_FORMAT_PUSH start e trailing (limb mod 10) s))
            (fmt_push start (e + d) trailing (limb div 10 mod 10)
               (BN_FORMAT_PUSH start (e + d) trailing (limb mod 10) b))"
    by (intro fmt_push_sim push_sim r)
  note 1 = push_sim [OF r, of e trailing "limb mod 10"]
  from 1 2 r both v dm show ?thesis
    by (simp add: exit_sim_Inr)
qed (simp_all add: exit_sim_failed)

lemma final_sim:
  assumes "exit_sim (fmt_rel m d start) rs rb"
  shows "exit_sim (fmt_rel m d start) (fmt_final start e trailing rs)
                                    (fmt_final start (e + d) trailing rb)"
  using assms
proof (cases rule: exit_sim_cases)
  case (both s b)
  from final_loop_sim [OF both(3), of e trailing] both show ?thesis
    by (simp del: fmt_final_loop.simps)
qed (simp_all add: exit_sim_failed)

lemma finish_sim:
  assumes sim: "exit_sim (fmt_rel m d start) rs rb"
    and big: "fmt_finish start rb = Return L buf"
    and small: "m \<le> L"
  shows "\<exists>buf'. fmt_finish start rs = Return 0 buf'"
  using sim
proof (cases rule: exit_sim_cases)
  case (small_failed x)
  then show ?thesis by (cases x) simp_all
next
  case (both s b)
  from both(3) have r: "str b = str s + d" "length (out b) = m + d" "length (out s) = m"
    "start \<le> str s" "str s < m"
    by (simp_all add: fmt_rel_def)
  from big both(2) have "L = start + (length (out b) - str b) - 1"
    by (simp add: Let_def split: if_splits)
  with r small show ?thesis by arith
qed

lemma length_memcpy_at:
  "off + length src \<le> length dst \<Longrightarrow> length (memcpy_at dst off src) = length dst"
  by (simp add: memcpy_at_def)

lemma fmt_init_out:
  assumes "length o1 = n" "strlen_opt suffix + 1 \<le> n"
  shows "length ((case suffix of None \<Rightarrow> o1
                  | Some s \<Rightarrow> memcpy_at o1 (n - strlen_opt suffix - 1) s)
                 [n - 1 := CHR 0x00]) = n"
    and "(case suffix of None \<Rightarrow> o1
          | Some s \<Rightarrow> memcpy_at o1 (n - strlen_opt suffix - 1) s)
           [n - 1 := CHR 0x00] ! (n - strlen_opt suffix - 1)
         = (case suffix of None \<Rightarrow> CHR 0x00
            | Some s \<Rightarrow> if s = [] then CHR 0x00 else s ! 0)"
  using assms
  by (auto simp: strlen_opt_def memcpy_at_def nth_list_update nth_append neq_Nil_conv
           split: option.splits)

text \<open>
  The test of \<open>BN_FORMAT_PUSH_CHECKED\<close> does its work where the buffer has room for the
  prefix, the suffix and the terminating NUL: if the rendering, as a larger buffer
  receives it, has \<open>L\<close> characters and the buffer has at most \<open>L\<close> bytes (with
  exactly \<open>L\<close> bytes it is one byte too small), then \<open>bn_format\<close> returns 0.
\<close>

lemma bn_format_with_room:
  assumes big: "bn_format amnt prefix suffix decimals0 exponent0 trailing big = Return L buf"
    and le: "length small \<le> length big"
    and room: "strlen_opt prefix + strlen_opt suffix + 1 \<le> length small"
    and small: "length small \<le> L"
  shows "\<exists>buf'. bn_format amnt prefix suffix decimals0 exponent0 trailing small = Return 0 buf'"
proof -
  define d where "d = length big - length small"
  define pl where "pl = strlen_opt prefix"
  define sl where "sl = strlen_opt suffix"
  define e where "e = length small - sl - 1"
  define ex where "ex = (if bn_is_zero amnt then 0 else exponent0)"
  define o1 where "o1 o0 = (case prefix of None \<Rightarrow> o0 | Some p \<Rightarrow> memcpy_at o0 0 p)" for o0
  define init where "init o0 =
     \<lparr>out = (case suffix of None \<Rightarrow> o1 o0
                | Some s \<Rightarrow> memcpy_at (o1 o0) (length o0 - strlen_opt suffix - 1) s)
              [length o0 - 1 := CHR 0x00],
      str = length o0 - strlen_opt suffix - 1, exponent = ex, decimals = decimals0\<rparr>" for o0
  define run where "run en st =
     fmt_final pl en trailing
       (fmt_rest (bn_digitcount amnt) pl en trailing
         (fmt_triples_loop (unat (bn_digitcount amnt div 3)) pl en trailing amnt
           (fmt_exponent_loop pl en trailing st)))" for en st
  have fmt: "bn_format amnt prefix suffix decimals0 exponent0 trailing o0
      = fmt_finish pl (run (length o0 - sl - 1) (init o0))"
    if "pl + sl + 1 \<le> length o0" for o0
  proof -
    from that have "\<not> (length o0 < pl \<or> length o0 < sl + 1)" by simp
    then show ?thesis
      unfolding bn_format_def Let_def run_def init_def o1_def pl_def sl_def ex_def strlen_opt_def
      by (simp only: if_False)
  qed
  have len1: "length (o1 o0) = length o0" if "pl + sl + 1 \<le> length o0" for o0
    using that by (simp add: o1_def pl_def strlen_opt_def length_memcpy_at split: option.splits)
  have init_props: "length (out (init o0)) = length o0"
      "out (init o0) ! str (init o0)
        = (case suffix of None \<Rightarrow> CHR 0x00 | Some s \<Rightarrow> if s = [] then CHR 0x00 else s ! 0)"
      "str (init o0) = length o0 - sl - 1" "exponent (init o0) = ex"
      "decimals (init o0) = decimals0"
    if "pl + sl + 1 \<le> length o0" for o0
    using fmt_init_out [of "o1 o0" "length o0" suffix] len1 [OF that] that
    by (simp_all add: init_def sl_def)
  from room le have roomb: "pl + sl + 1 \<le> length big" and rooms: "pl + sl + 1 \<le> length small"
    by (simp_all add: pl_def sl_def)
  have eb: "length big - sl - 1 = e + d" "length big = length small + d"
    "pl \<le> e" "e < length small"
    using le rooms by (simp_all add: e_def d_def)
  have "out (init big) ! str (init big) = out (init small) ! str (init small)"
    by (simp only: init_props(2) [OF roomb] init_props(2) [OF rooms])
  then have rel: "fmt_rel (length small) d pl (init small) (init big)"
    unfolding fmt_rel_def
    using init_props(1,3,4,5) [OF roomb] init_props(1,3,4,5) [OF rooms] eb
    by (simp add: e_def)
  have sim: "exit_sim (fmt_rel (length small) d pl) (run e (init small)) (run (e + d) (init big))"
    unfolding run_def
    by (intro final_sim rest_sim triples_sim exponent_loop_sim rel)
  have fin: "fmt_finish pl (run (e + d) (init big)) = Return L buf"
    using big fmt [OF roomb] eb by simp
  from finish_sim [OF sim fin small] fmt [OF rooms] show ?thesis
    by (simp add: e_def)
qed

section \<open>Scratch buffers at the return\<close>

lemma bn_one_unit: "bn_one (replicate 9 0) = [1, 0, 0, 0, 0, 0, 0, 0, 0]"
  by code_simp

lemma bn_multiply_unit:
  "bn_multiply [1, 0, 0, 0, 0, 0, 0, 0, 0] [1, 0, 0, 0, 0, 0, 0, 0, 0] secp256k1_prime
     = Some [1, 0, 0, 0, 0, 0, 0, 0, 0]"
  by code_simp

lemma bn_mod_unit:
  "bn_mod [1, 0, 0, 0, 0, 0, 0, 0, 0] secp256k1_prime = [1, 0, 0, 0, 0, 0, 0, 0, 0]"
  by code_simp

lemma bn_power_inner_unit:
  "bn_power_inner n brk limb [1, 0, 0, 0, 0, 0, 0, 0, 0] [1, 0, 0, 0, 0, 0, 0, 0, 0] secp256k1_prime
     = Some ([1, 0, 0, 0, 0, 0, 0, 0, 0], [1, 0, 0, 0, 0, 0, 0, 0, 0])"
  by (induction n arbitrary: limb) (simp_all add: bn_multiply_unit)

lemma bn_inverse_rounds_unit:
  "fold (bn_inverse_round secp256k1_prime) is
      (Some ([1, 0, 0, 0, 0, 0, 0, 0, 0], [1, 0, 0, 0, 0, 0, 0, 0, 0]))
     = Some ([1, 0, 0, 0, 0, 0, 0, 0, 0], [1, 0, 0, 0, 0, 0, 0, 0, 0])"
  by (induction "is") (simp_all add: bn_power_inner_unit Let_def)

text \<open>
  C8 at \<open>x = 1\<close> with the secp256k1 prime: when \<open>bn_inverse\<close> returns, its local
  accumulator \<open>res\<close> still holds the result, it is not zero.
\<close>

theorem bn_inverse_scratch_left:
  "bn_inverse_st [1, 0, 0, 0, 0, 0, 0, 0, 0] secp256k1_prime
     = Some ([1, 0, 0, 0, 0, 0, 0, 0, 0], [1, 0, 0, 0, 0, 0, 0, 0, 0])"
  by (simp add: bn_inverse_st_def bn_one_unit bn_inverse_rounds_unit bn_mod_unit Let_def)


section \<open>Byte encodings: decoding what was encoded\<close>

lemma upt8: "[0..<8] = [0, 1, 2, 3, 4, 5, 6, 7]"
  by code_simp

lemma upt32:
  "[0..<32] = [0, 1, 2, 3, 4, 5, 6, 7, 8, 9, 10, 11, 12, 13, 14, 15, 16, 17, 18, 19, 20,
               21, 22, 23, 24, 25, 26, 27, 28, 29, 30, 31]"
  by code_simp

lemma word32_bit_eqI:
  fixes a b :: uint32
  assumes "\<forall>n \<in> set [0..<32]. bit a n = bit b n"
  shows "a = b"
  by (rule bit_word_eqI) (use assms in simp)

lemma bit_word32_ge [simp]: "32 \<le> n \<Longrightarrow> bit (w :: uint32) n = False"
  by (auto dest: bit_imp_le_length)

lemma uint_lt_upper_bits:
  fixes w :: "'a::len word"
  assumes "uint w < 2 ^ k" "k \<le> n"
  shows "\<not> bit w n"
proof -
  have "take_bit k (uint w) = uint w"
    using assms(1) by (intro take_bit_int_eq_self) simp_all
  then have "bit (uint w) n = bit (take_bit k (uint w)) n" by simp
  also have "\<dots> = False" using assms(2) by (simp only: bit_take_bit_iff) simp
  finally show ?thesis by (auto simp: bit_uint_iff dest: bit_imp_le_length)
qed

lemma be_bytes_roundtrip:
  fixes w :: uint32
  shows "push_bit 24 (ucast (ucast (drop_bit 24 w) :: uint8)) OR
         push_bit 16 (ucast (ucast (drop_bit 16 w) :: uint8)) OR
         push_bit 8 (ucast (ucast (drop_bit 8 w) :: uint8)) OR ucast (ucast w :: uint8) = w"
  by (rule word32_bit_eqI) (simp add: upt32 bit_simps)

lemma length_write_be [simp]: "length (write_be data off w) = length data"
  by (simp add: write_be_def)

lemma length_write_le [simp]: "length (write_le data off w) = length data"
  by (simp add: write_le_def)

lemma read_write_be_same:
  assumes "off + 4 \<le> length data"
  shows "read_be (drop off (write_be data off w)) = w"
proof -
  have "drop off (write_be data off w) ! 0 = ucast (drop_bit 24 w)"
       "drop off (write_be data off w) ! 1 = ucast (drop_bit 16 w)"
       "drop off (write_be data off w) ! 2 = ucast (drop_bit 8 w)"
       "drop off (write_be data off w) ! 3 = ucast w"
    using assms by (simp_all add: write_be_def nth_list_update)
  then show ?thesis
    unfolding read_be_def by (simp only: be_bytes_roundtrip)
qed

lemma read_write_be_other:
  assumes "off' + 4 \<le> off \<or> off + 4 \<le> off'" "off + 4 \<le> length data" "off' + 4 \<le> length data"
  shows "read_be (drop off' (write_be data off w)) = read_be (drop off' data)"
  using assms by (auto simp: read_be_def write_be_def nth_list_update)

lemma read_write_le_same:
  assumes "off + 4 \<le> length data"
  shows "read_le (drop off (write_le data off w)) = w"
proof -
  have "drop off (write_le data off w) ! 3 = ucast (drop_bit 24 w)"
       "drop off (write_le data off w) ! 2 = ucast (drop_bit 16 w)"
       "drop off (write_le data off w) ! 1 = ucast (drop_bit 8 w)"
       "drop off (write_le data off w) ! 0 = ucast w"
    using assms by (simp_all add: write_le_def nth_list_update)
  then show ?thesis
    unfolding read_le_def by (simp only: be_bytes_roundtrip)
qed

lemma read_write_le_other:
  assumes "off' + 4 \<le> off \<or> off + 4 \<le> off'" "off + 4 \<le> length data" "off' + 4 \<le> length data"
  shows "read_le (drop off' (write_le data off w)) = read_le (drop off' data)"
  using assms by (auto simp: read_le_def write_le_def nth_list_update)

lemma fits256_bits:
  assumes "fits256 x"
  shows "i < 8 \<Longrightarrow> 30 \<le> n \<Longrightarrow> bit (x ! i) n = False"
    and "16 \<le> n \<Longrightarrow> bit (x ! 8) n = False"
  using assms uint_lt_upper_bits [of "x ! i" 30 n] uint_lt_upper_bits [of "x ! 8" 16 n]
  by (auto simp: fits256_def)

lemma Suc_numerals: "Suc (Suc 0) = 2" "Suc (Suc (Suc 0)) = 3"
  by simp_all

lemma dec_limb:
  assumes "fits256 x"
  shows "\<forall>k \<in> set [0..<8]. (dec_temp x k OR push_bit (2 * k) (enc_word x (7 - k))) AND 0x3FFFFFFF = x ! k"
  unfolding upt8 mask30_numeral
  apply (simp add: dec_temp_def enc_word_def)
  apply (intro conjI word32_bit_eqI)
  apply (simp_all add: upt32 bit_simps fits256_bits [OF assms] Suc_numerals)
  done

lemma dec_last:
  assumes "fits256 x"
  shows "dec_temp x 8 = x ! 8"
  apply (simp add: dec_temp_def enc_word_def)
  apply (rule word32_bit_eqI)
  apply (simp add: upt32 bit_simps fits256_bits [OF assms])
  done


lemma write_be_loop:
  assumes "n \<le> 8" "length out0 = 32"
    and "fold (bn_write_be_round x) [0..<n] (x ! 8, out0) = (t, b)"
  shows "t = x ! (8 - n) \<and> length b = 32 \<and> (\<forall>i<n. read_be (drop (i * 4) b) = enc_word x i)"
  using assms
proof (induction n arbitrary: t b)
  case 0
  then show ?case by simp
next
  case (Suc n)
  obtain t0 b0 where f0: "fold (bn_write_be_round x) [0..<n] (x ! 8, out0) = (t0, b0)"
    by (cases "fold (bn_write_be_round x) [0..<n] (x ! 8, out0)")
  from Suc.IH [OF _ Suc.prems(2) f0] Suc.prems(1)
  have ih: "t0 = x ! (8 - n)" "length b0 = 32" "\<forall>i<n. read_be (drop (i * 4) b0) = enc_word x i"
    by simp_all
  from Suc.prems(3) f0
  have "(t, b) = bn_write_be_round x n (t0, b0)" by simp
  then have t: "t = x ! (7 - n)" and b: "b = write_be b0 (n * 4) (enc_word x n)"
    by (simp_all add: Let_def enc_word_def ih(1))
  have "read_be (drop (i * 4) b) = enc_word x i" if "i < Suc n" for i
  proof (cases "i = n")
    case True
    then show ?thesis
      unfolding b using Suc.prems(1) ih(2) by (simp add: read_write_be_same)
  next
    case False
    with that have "i < n" by simp
    then have "read_be (drop (i * 4) b) = read_be (drop (i * 4) b0)"
      unfolding b using Suc.prems(1) ih(2) by (intro read_write_be_other) simp_all
    with ih(3) \<open>i < n\<close> show ?thesis by simp
  qed
  then show ?case using t b ih(2) by simp
qed

lemma write_le_loop:
  assumes "n \<le> 8" "length out0 = 32"
    and "fold (bn_write_le_round x) [0..<n] (x ! 8, out0) = (t, b)"
  shows "t = x ! (8 - n) \<and> length b = 32 \<and> (\<forall>i<n. read_le (drop ((7 - i) * 4) b) = enc_word x i)"
  using assms
proof (induction n arbitrary: t b)
  case 0
  then show ?case by simp
next
  case (Suc n)
  obtain t0 b0 where f0: "fold (bn_write_le_round x) [0..<n] (x ! 8, out0) = (t0, b0)"
    by (cases "fold (bn_write_le_round x) [0..<n] (x ! 8, out0)")
  from Suc.IH [OF _ Suc.prems(2) f0] Suc.prems(1)
  have ih: "t0 = x ! (8 - n)" "length b0 = 32"
    "\<forall>i<n. read_le (drop ((7 - i) * 4) b0) = enc_word x i"
    by simp_all
  from Suc.prems(3) f0
  have "(t, b) = bn_write_le_round x n (t0, b0)" by simp
  then have t: "t = x ! (7 - n)" and b: "b = write_le b0 ((7 - n) * 4) (enc_word x n)"
    by (simp_all add: Let_def enc_word_def ih(1))
  have "read_le (drop ((7 - i) * 4) b) = enc_word x i" if "i < Suc n" for i
  proof (cases "i = n")
    case True
    then show ?thesis
      unfolding b using Suc.prems(1) ih(2) by (simp add: read_write_le_same)
  next
    case False
    with that have "i < n" by simp
    then have "(7 - n) * 4 + 4 \<le> (7 - i) * 4" "(7 - i) * 4 + 4 \<le> 32"
      using Suc.prems(1) by arith+
    then have "read_le (drop ((7 - i) * 4) b) = read_le (drop ((7 - i) * 4) b0)"
      unfolding b using Suc.prems(1) ih(2) by (intro read_write_le_other) simp_all
    with ih(3) \<open>i < n\<close> show ?thesis by simp
  qed
  then show ?case using t b ih(2) by simp
qed

text \<open>The decoding loop, reading word \<open>7 - i\<close> of the encoding in round \<open>i\<close>.\<close>

lemma read_loop:
  assumes "fits256 x" "length out1 = 9" "n \<le> 8"
    and "\<forall>i<n. rd i = bn_read_round i (enc_word x (7 - i))"
    and "fold rd [0..<n] (0, out1) = (t, r)"
  shows "t = dec_temp x n \<and> length r = 9 \<and> (\<forall>i<n. r ! i = x ! i)"
  using assms(3-)
proof (induction n arbitrary: t r)
  case 0
  then show ?case using assms(2) by (simp add: dec_temp_def)
next
  case (Suc n)
  obtain t0 r0 where f0: "fold rd [0..<n] (0, out1) = (t0, r0)"
    by (cases "fold rd [0..<n] (0, out1)")
  from Suc.IH [OF _ _ f0] Suc.prems
  have ih: "t0 = dec_temp x n" "length r0 = 9" "\<forall>i<n. r0 ! i = x ! i"
    by simp_all
  have n8: "n < 8" using Suc.prems by simp
  then have limb: "(dec_temp x n OR push_bit (2 * n) (enc_word x (7 - n))) AND 0x3FFFFFFF = x ! n"
    using dec_limb [OF assms(1)] by simp
  from Suc.prems f0
  have "(t, r) = bn_read_round n (enc_word x (7 - n)) (t0, r0)" by simp
  then have t: "t = drop_bit (30 - 2 * n) (enc_word x (7 - n))"
    and r: "r = r0[n := x ! n]"
    by (simp_all add: Let_def ih(1) limb)
  have "t = dec_temp x (Suc n)"
    using n8 by (simp add: t dec_temp_def)
  moreover have "\<forall>i<Suc n. r ! i = x ! i"
    using ih n8 by (auto simp: r nth_list_update less_Suc_eq)
  ultimately show ?case using ih(2) r by simp
qed

lemma fits256_decoded:
  assumes "fits256 x" "length r = 9" "\<forall>i<8. r ! i = x ! i"
  shows "r[8 := dec_temp x 8] = x"
proof (rule nth_equalityI)
  show "length (r[8 := dec_temp x 8]) = length x"
    using assms by (simp add: fits256_def)
  fix i assume "i < length (r[8 := dec_temp x 8])"
  then have "i < 9" using assms(2) by simp
  then show "r[8 := dec_temp x 8] ! i = x ! i"
    using assms dec_last [OF assms(1)] by (cases "i = 8") (simp_all add: nth_list_update)
qed

lemma bn_read_write_be:
  assumes "fits256 x" "length out_bytes = 32" "length out_number = 9"
  shows "bn_read_be (bn_write_be x out_bytes) out_number = x"
proof -
  obtain t b where w: "fold (bn_write_be_round x) [0..<8] (x ! 8, out_bytes) = (t, b)"
    by (cases "fold (bn_write_be_round x) [0..<8] (x ! 8, out_bytes)")
  from write_be_loop [OF _ assms(2) w]
  have b: "\<forall>i<8. read_be (drop (i * 4) b) = enc_word x i" by simp
  obtain t' r where rd: "fold (bn_read_be_round b) [0..<8] (0, out_number) = (t', r)"
    by (cases "fold (bn_read_be_round b) [0..<8] (0, out_number)")
  have "\<forall>i<8. bn_read_be_round b i = bn_read_round i (enc_word x (7 - i))"
    using b by (auto simp: bn_read_be_round_def fun_eq_iff)
  from read_loop [OF assms(1,3) _ this rd]
  have "t' = dec_temp x 8" "length r = 9" "\<forall>i<8. r ! i = x ! i" by simp_all
  then show ?thesis
    using fits256_decoded [OF assms(1)] by (simp add: bn_read_be_def bn_write_be_def w rd)
qed

lemma bn_read_write_le:
  assumes "fits256 x" "length out_bytes = 32" "length out_number = 9"
  shows "bn_read_le (bn_write_le x out_bytes) out_number = x"
proof -
  obtain t b where w: "fold (bn_write_le_round x) [0..<8] (x ! 8, out_bytes) = (t, b)"
    by (cases "fold (bn_write_le_round x) [0..<8] (x ! 8, out_bytes)")
  from write_le_loop [OF _ assms(2) w]
  have b: "\<forall>i<8. read_le (drop ((7 - i) * 4) b) = enc_word x i" by simp
  obtain t' r where rd: "fold (bn_read_le_round b) [0..<8] (0, out_number) = (t', r)"
    by (cases "fold (bn_read_le_round b) [0..<8] (0, out_number)")
  have "read_le (drop (i * 4) b) = enc_word x (7 - i)" if "i < 8" for i
    using b [rule_format, of "7 - i"] that by simp
  then have "\<forall>i<8. bn_read_le_round b i = bn_read_round i (enc_word x (7 - i))"
    by (auto simp: bn_read_le_round_def fun_eq_iff)
  from read_loop [OF assms(1,3) _ this rd]
  have "t' = dec_temp x 8" "length r = 9" "\<forall>i<8. r ! i = x ! i" by simp_all
  then show ?thesis
    using fits256_decoded [OF assms(1)] by (simp add: bn_read_le_def bn_write_le_def w rd)
qed

lemma fully_reduced_fits256:
  assumes "prime_band prime" "fully_reduced x prime"
  shows "fits256 x"
proof -
  have n: "bn_normalized x" and v: "bn_val x < 2 ^ 256"
    using assms by (simp_all add: fully_reduced_def prime_band_def)
  have "limbs_upto 9 x = limbs_upto 8 x + uint (x ! 8) * 2 ^ 240"
    by (simp add: limbs_upto_Suc [of 8, simplified])
  with limbs_upto_nonneg [of 8 x] v have "uint (x ! 8) * 2 ^ 240 < 2 ^ 16 * 2 ^ 240"
    by (simp add: bn_val_def)
  then have "uint (x ! 8) < 2 ^ 16"
    by (simp only: mult_less_cancel_right) simp
  moreover have "\<forall>i<8. uint (x ! i) < 2 ^ 30"
    using bn_normalized_nth [OF n] by (simp add: limb_lt_iff)
  ultimately show ?thesis
    using n by (simp add: fits256_def bn_normalized_def)
qed

text \<open>
  C4: for a fully reduced \<open>x\<close> (normalized and below a prime of the band), decoding
  the 32-byte big-endian encoding of \<open>x\<close> gives \<open>x\<close> back, and so does the
  little-endian pair.
\<close>

theorem bn_read_write_roundtrip:
  assumes "prime_band prime" "fully_reduced x prime"
    and "length out_bytes = 32" "length out_number = 9"
  shows "bn_read_be (bn_write_be x out_bytes) out_number = x \<and>
         bn_read_le (bn_write_le x out_bytes) out_number = x"
  using bn_read_write_be [OF fully_reduced_fits256 [OF assms(1,2)] assms(3,4)]
        bn_read_write_le [OF fully_reduced_fits256 [OF assms(1,2)] assms(3,4)]
  by simp

theorem bn_read_write_roundtrip_witness:
  "bn_read_be (bn_write_be [5, 6, 7, 0, 0, 0, 0, 0, 9] (replicate 32 0)) (replicate 9 0)
     = [5, 6, 7, 0, 0, 0, 0, 0, 9] \<and>
   bn_read_le (bn_write_le [5, 6, 7, 0, 0, 0, 0, 0, 9] (replicate 32 0)) (replicate 9 0)
     = [5, 6, 7, 0, 0, 0, 0, 0, 9]"
proof -
  have p: "prime_band secp256k1_prime" by code_simp
  have x: "fully_reduced [5, 6, 7, 0, 0, 0, 0, 0, 9] secp256k1_prime" by code_simp
  show ?thesis
    using bn_read_write_roundtrip [OF p x, of "replicate 32 0" "replicate 9 0"] by simp
qed


section \<open>Subtracting a multiple of the prime\<close>

lemma limbs_at_0 [simp]: "limbs_at off 0 a = 0"
  by (simp add: limbs_at_def)

lemma limbs_at_Suc:
  "limbs_at off (Suc n) a = limbs_at off n a + uint (a ! (off + n)) * 2 ^ (30 * n)"
  by (simp add: limbs_at_def)

lemma limbs_at_upto: "limbs_at 0 n a = limbs_upto n a"
  by (simp add: limbs_at_def limbs_upto_def)

lemma limbs_at_cong:
  "(\<forall>m<n. a ! (off + m) = b ! (off + m)) \<Longrightarrow> limbs_at off n a = limbs_at off n b"
  by (simp add: limbs_at_def)

lemma limbs_at_nonneg: "0 \<le> limbs_at off n a"
  by (simp add: limbs_at_def sum_nonneg)

lemma limbs_at_bound:
  "(\<forall>m<n. a ! (off + m) < 0x40000000) \<Longrightarrow> limbs_at off n a < 2 ^ (30 * n)"
proof (induction n)
  case 0
  then show ?case by simp
next
  case (Suc n)
  define P :: int where "P = 2 ^ (30 * n)"
  have "limbs_at off n a < P" using Suc by (simp add: P_def)
  moreover have "uint (a ! (off + n)) \<le> 1073741823"
    using Suc.prems [rule_format, of n] by (simp add: limb_lt_iff)
  then have "uint (a ! (off + n)) * P \<le> 1073741823 * P"
    by (rule mult_right_mono) (simp add: P_def)
  moreover have "(2::int) ^ (30 * Suc n) = 1073741824 * P"
    by (simp add: P_def power_add)
  ultimately show ?case
    unfolding limbs_at_Suc P_def [symmetric] by linarith
qed

lemma limbs_upto_split:
  "limbs_upto (off + n) a = limbs_upto off a + 2 ^ (30 * off) * limbs_at off n a"
proof (induction n)
  case 0
  then show ?case by simp
next
  case (Suc n)
  have "limbs_upto (off + Suc n) a = limbs_upto (off + n) a + uint (a ! (off + n)) * 2 ^ (30 * (off + n))"
    by (simp add: limbs_upto_Suc)
  then show ?case
    using Suc by (simp add: limbs_at_Suc algebra_simps power_add)
qed

lemma limb_product_bound:
  fixes a b :: int
  assumes "0 \<le> a" "a < 2 ^ 30" "0 \<le> b" "b < 2 ^ 31"
  shows "0 \<le> a * b" "a * b \<le> 2305843005992468481"
proof -
  show "0 \<le> a * b" using assms by simp
  have "a * b \<le> 1073741823 * 2147483647"
    using assms by (intro mult_mono) simp_all
  then show "a * b \<le> 2305843005992468481" by simp
qed

lemma uint_ucast_masked:
  fixes T :: uint64
  shows "uint (ucast (T AND 0x3FFFFFFF) :: uint32) = uint T mod 2 ^ 30"
proof -
  have "uint (T AND 0x3FFFFFFF) = uint T mod 2 ^ 30" by (rule uint_and_mask30)
  moreover have "uint T mod 2 ^ 30 < 2 ^ 32"
    using pos_mod_bound [of "2 ^ 30" "uint T"] by simp
  moreover have "0 \<le> uint T mod 2 ^ 30" by simp
  ultimately have "take_bit 32 (uint (T AND 0x3FFFFFFF)) = uint T mod 2 ^ 30"
    by (simp add: take_bit_int_eq_self)
  then show ?thesis by (simp add: unsigned_ucast_eq)
qed

lemma masked_limb_lt: "(ucast ((T :: uint64) AND 0x3FFFFFFF) :: uint32) < 0x40000000"
  by (simp add: limb_lt_iff uint_ucast_masked)

text \<open>One round in integers: no 64-bit overflow and no underflow.\<close>

lemma reduce_round_uint:
  fixes temp :: uint64 and r p coef :: uint32
  assumes "uint temp < 2 ^ 62" "p < 0x40000000" "uint coef < 2 ^ 31"
  defines "T \<equiv> drop_bit 30 temp + (0x1FFFFFFF80000000 + ucast r - ucast p * ucast coef)"
  shows "uint T = uint temp div 2 ^ 30 + 2305843007066210304 + uint r - uint p * uint coef"
    and "uint T < 2 ^ 62"
proof -
  let ?z = "uint temp div 2 ^ 30 + 2305843007066210304 + uint r - uint p * uint coef"
  have A: "drop_bit 30 temp = word_of_int (uint temp div 2 ^ 30)"
    by (metis uint_drop_bit word_of_int_uint)
  have B: "(ucast r :: uint64) = word_of_int (uint r)"
       "(ucast p :: uint64) = word_of_int (uint p)"
       "(ucast coef :: uint64) = word_of_int (uint coef)"
    by (metis uint_ucast_32_64 word_of_int_uint)+
  have e: "T = word_of_int ?z"
    unfolding T_def A B by simp
  have t: "0 \<le> uint temp div 2 ^ 30" "uint temp div 2 ^ 30 < 4294967296"
    using div_2p30_le [of "uint temp" 4294967296] assms(1) by simp_all
  have pc: "0 \<le> uint p * uint coef" "uint p * uint coef \<le> 2305843005992468481"
    using limb_product_bound [of "uint p" "uint coef"] assms(2,3) by (simp_all add: limb_lt_iff)
  have r: "0 \<le> uint r" "uint r < 4294967296"
    using uint_lt2p [of r] by simp_all
  have z0: "0 \<le> ?z" using t pc r by linarith
  have z1: "?z < 4611686018427387904" using t pc r by linarith
  then have "?z < 2 ^ LENGTH(64)" by simp
  with z0 show u: "uint T = ?z"
    unfolding e by (rule uint_of_int_eq)
  show "uint T < 2 ^ 62" using z1 unfolding u by simp
qed

lemma reduce_loop_inv:
  assumes "uint coef < 2 ^ 31" "\<forall>m<n. P ! m < 0x40000000" "off + n \<le> length R"
    and "fold (bn_reduce_round P coef off) [0..<n] (0x2000000000000000, R) = (temp, res)"
  shows "length res = length R \<and>
         (\<forall>k. k < off \<or> off + n \<le> k \<longrightarrow> res ! k = R ! k) \<and>
         (\<forall>m<n. res ! (off + m) < 0x40000000) \<and>
         uint temp < 2 ^ 62 \<and>
         limbs_at off n res + (uint temp div 2 ^ 30 - 2 ^ 31) * 2 ^ (30 * n)
           = limbs_at off n R - uint coef * limbs_upto n P"
  using assms(2-)
proof (induction n arbitrary: temp res)
  case 0
  then show ?case by simp
next
  case (Suc n)
  obtain t0 r0 where f0: "fold (bn_reduce_round P coef off) [0..<n] (0x2000000000000000, R) = (t0, r0)"
    by (cases "fold (bn_reduce_round P coef off) [0..<n] (0x2000000000000000, R)")
  define Q :: int where "Q = 2 ^ (30 * n)"
  have QS: "(2::int) ^ (30 * Suc n) = 1073741824 * Q"
    by (simp add: Q_def power_add)
  from Suc.IH [OF _ _ f0] Suc.prems
  have ih: "length r0 = length R" "\<forall>k. k < off \<or> off + n \<le> k \<longrightarrow> r0 ! k = R ! k"
    "\<forall>m<n. r0 ! (off + m) < 0x40000000" "uint t0 < 2 ^ 62"
    "limbs_at off n r0 + (uint t0 div 2 ^ 30 - 2 ^ 31) * Q = limbs_at off n R - uint coef * limbs_upto n P"
    by (simp_all add: Q_def)
  define T where "T = drop_bit 30 t0 + (0x1FFFFFFF80000000 + ucast (R ! (off + n)) - ucast (P ! n) * ucast coef)"
  have Pn: "P ! n < 0x40000000" using Suc.prems by simp
  have T: "uint T = uint t0 div 2 ^ 30 + 2305843007066210304 + uint (R ! (off + n)) - uint (P ! n) * uint coef"
    and T62: "uint T < 2 ^ 62"
    unfolding T_def using reduce_round_uint [OF ih(4) Pn assms(1)] by simp_all
  have rn: "r0 ! (off + n) = R ! (off + n)" using ih(2) by simp
  from Suc.prems(3) f0
  have "(temp, res) = bn_reduce_round P coef off n (t0, r0)" by simp
  then have res: "temp = T" "res = r0[off + n := ucast (T AND 0x3FFFFFFF)]"
    by (simp_all add: Let_def T_def rn)
  have nlt: "off + n < length r0" using ih(1) Suc.prems by simp
  have len: "length res = length R" using res ih(1) by simp
  have unch: "\<forall>k. k < off \<or> off + Suc n \<le> k \<longrightarrow> res ! k = R ! k"
    using ih(2) by (auto simp: res nth_list_update)
  have lim: "\<forall>m<Suc n. res ! (off + m) < 0x40000000"
    using ih(3) nlt by (auto simp: res nth_list_update less_Suc_eq masked_limb_lt)
  have "limbs_at off n res = limbs_at off n r0"
    by (rule limbs_at_cong) (simp add: res)
  moreover have "uint (res ! (off + n)) = uint T mod 2 ^ 30"
    using nlt by (simp add: res uint_ucast_masked)
  ultimately have "limbs_at off (Suc n) res = limbs_at off n r0 + (uint T mod 2 ^ 30) * Q"
    by (simp add: limbs_at_Suc Q_def)
  moreover have "Q * (uint T mod 2 ^ 30) + Q * (2 ^ 30 * (uint T div 2 ^ 30)) = Q * uint T"
    by (simp flip: distrib_left)
  ultimately have "limbs_at off (Suc n) res + (uint T div 2 ^ 30 - 2 ^ 31) * 2 ^ (30 * Suc n)
      = limbs_at off n r0 + Q * (uint T - 2305843009213693952)"
    unfolding QS by (simp add: algebra_simps)
  also have "\<dots> = limbs_at off (Suc n) R - uint coef * limbs_upto (Suc n) P"
    using ih(5) unfolding T limbs_at_Suc limbs_upto_Suc Q_def [symmetric]
    by (simp add: algebra_simps)
  finally show ?case using len unch lim T62 by (simp add: res)
qed


section \<open>Partial reduction\<close>

lemma carry_zero:
  fixes V D q M :: int
  assumes "V + q * M = D" "0 \<le> V" "V < M" "0 \<le> D" "D < M"
  shows "q = 0"
proof (rule ccontr)
  assume "q \<noteq> 0"
  then consider "1 \<le> q" | "q \<le> - 1" by linarith
  then show False
  proof cases
    case 1
    then have "1 * M \<le> q * M" using assms(2,3) by (intro mult_right_mono) simp_all
    with assms show False by simp
  next
    case 2
    then have "q * M \<le> (- 1) * M" using assms(2,3) by (intro mult_right_mono) simp_all
    with assms show False by simp
  qed
qed

lemma reduce_first:
  "bn_reduce_round P coef off 0 (0x2000000000000000, R)
     = (0x2000000000000000 + ucast (R ! off) - ucast (P ! 0) * ucast coef,
        R[off := ucast ((0x2000000000000000 + ucast (R ! off) - ucast (P ! 0) * ucast coef :: uint64)
                        AND 0x3FFFFFFF)])"
proof -
  have e: "drop_bit 30 (0x2000000000000000 :: uint64) + (0x1FFFFFFF80000000 + a - b)
      = 0x2000000000000000 + a - b" for a b
    by simp
  show ?thesis
    unfolding bn_reduce_round.simps Let_def e by simp
qed

lemma upt_0_9: "[0..<9] = 0 # [1..<9]"
  by (simp add: upt_rec)

lemma limbs_upto_bound32: "limbs_upto n a < 2 ^ (30 * n + 3)"
proof (induction n)
  case 0
  then show ?case by simp
next
  case (Suc n)
  define Q :: int where "Q = 2 ^ (30 * n)"
  have Q: "0 < Q" by (simp add: Q_def)
  have "limbs_upto n a < 8 * Q" using Suc by (simp add: Q_def power_add)
  moreover have "uint (a ! n) \<le> 4294967295" using uint_lt2p [of "a ! n"] by simp
  then have "uint (a ! n) * Q \<le> 4294967295 * Q"
    using Q by (intro mult_right_mono) simp_all
  moreover have "(2::int) ^ (30 * Suc n + 3) = 8589934592 * Q"
    by (simp add: Q_def power_add)
  ultimately show ?case
    unfolding limbs_upto_Suc Q_def [symmetric] using Q by linarith
qed

lemma prime_band_bounds:
  assumes "prime_band prime"
  shows "bn_normalized prime" "length prime = 9" "\<forall>m<9. prime ! m < 0x40000000"
    "limbs_upto 9 prime = bn_val prime"
    "2 ^ 256 - 2 ^ 224 < bn_val prime"
    "bn_val prime < 2 ^ 256"
  using assms by (simp_all add: prime_band_def bn_normalized_nth bn_val_def bn_normalized_def)

lemma fast_mod_value:
  assumes "prime_band prime" "length x = 9"
  defines "c \<equiv> uint (x ! 8) div 2 ^ 16"
  shows "0 \<le> bn_val x - c * bn_val prime" "bn_val x - c * bn_val prime < 2 * bn_val prime"
proof -
  note pb = prime_band_bounds [OF assms(1)]
  define lo where "lo = limbs_upto 8 x"
  define hi where "hi = uint (x ! 8) mod 2 ^ 16"
  define gap where "gap = 2 ^ 256 - bn_val prime"
  have X: "bn_val x = lo + uint (x ! 8) * 2 ^ 240"
    by (simp add: bn_val_def lo_def limbs_upto_Suc [of 8, simplified])
  have x8: "uint (x ! 8) = c * 2 ^ 16 + hi"
    by (simp add: c_def hi_def)
  have c0: "0 \<le> c" and c1: "c \<le> 65535"
    using uint_lt2p [of "x ! 8"] div_2p30_le(2) [of "uint (x ! 8)"]
    by (simp_all add: c_def pos_imp_zdiv_nonneg_iff)
  have hi: "0 \<le> hi" "hi \<le> 65535"
    using pos_mod_bound [of "2 ^ 16" "uint (x ! 8)"] by (simp_all add: hi_def)
  have lo: "0 \<le> lo" "lo < 2 ^ 243"
    using limbs_upto_nonneg [of 8 x] limbs_upto_bound32 [of 8 x] by (simp_all add: lo_def)
  have gap: "0 < gap" "gap < 2 ^ 224"
    using pb(5,6) by (simp_all add: gap_def)
  have cg: "0 \<le> c * gap" "c * gap \<le> 65535 * 2 ^ 224"
    using c0 c1 gap by (simp, intro mult_mono, simp_all)
  have D: "bn_val x - c * bn_val prime = lo + hi * 2 ^ 240 + c * gap"
    unfolding X x8 gap_def by (simp add: algebra_simps)
  show "0 \<le> bn_val x - c * bn_val prime"
    unfolding D using lo(1) hi(1) cg(1) by simp
  have "hi * 2 ^ 240 \<le> 65535 * 2 ^ 240"
    using hi(2) by (intro mult_right_mono) simp_all
  then show "bn_val x - c * bn_val prime < 2 * bn_val prime"
    unfolding D using lo(2) cg(2) pb(5) by simp
qed

lemma bn_fast_mod_val:
  assumes "prime_band prime" "length x = 9"
  shows "bn_normalized (bn_fast_mod x prime)"
    and "bn_val (bn_fast_mod x prime) = bn_val x - (uint (x ! 8) div 2 ^ 16) * bn_val prime"
proof -
  note pb = prime_band_bounds [OF assms(1)]
  define coef where "coef = drop_bit 16 (x ! 8)"
  define c where "c = uint (x ! 8) div 2 ^ 16"
  have c: "uint coef = c" by (simp add: coef_def c_def uint_drop_bit)
  have "c < 2 ^ 31"
    using uint_lt2p [of "x ! 8"] by (simp add: c_def)
  then have c31: "uint coef < 2 ^ 31" by (simp add: c)
  obtain temp res where f: "fold (bn_reduce_round prime coef 0) [0..<9] (0x2000000000000000, x) = (temp, res)"
    by (cases "fold (bn_reduce_round prime coef 0) [0..<9] (0x2000000000000000, x)")
  have r: "bn_fast_mod x prime = res"
    using f by (simp add: bn_fast_mod_def Let_def upt_0_9 reduce_first coef_def add_diff_eq)
  from reduce_loop_inv [OF c31 pb(3) _ f] assms(2)
  have inv: "length res = 9" "\<forall>m<9. res ! m < 0x40000000"
    "limbs_at 0 9 res + (uint temp div 2 ^ 30 - 2 ^ 31) * 2 ^ (30 * 9)
       = limbs_at 0 9 x - uint coef * limbs_upto 9 prime"
    by simp_all
  show n: "bn_normalized (bn_fast_mod x prime)"
    unfolding r using inv(1,2) by (intro bn_normalizedI) simp_all
  have eq: "bn_val res + (uint temp div 2 ^ 30 - 2 ^ 31) * 2 ^ 270 = bn_val x - c * bn_val prime"
    using inv(3) by (simp add: limbs_at_upto bn_val_def c)
  have "uint temp div 2 ^ 30 - 2 ^ 31 = 0"
    using eq bn_val_bounds [OF n [unfolded r]] fast_mod_value [OF assms] pb(6)
    by (intro carry_zero [of "bn_val res" _ "2 ^ 270" "bn_val x - c * bn_val prime"])
       (simp_all add: c_def)
  with eq show "bn_val (bn_fast_mod x prime) = bn_val x - (uint (x ! 8) div 2 ^ 16) * bn_val prime"
    by (simp add: r c_def)
qed

text \<open>
  C2: for a prime of the band and any content of the nine limbs of \<open>x\<close>,
  \<open>bn_fast_mod\<close> leaves a normalized value below \<open>2 * prime\<close> that is congruent to
  the old \<open>x\<close> modulo the prime.
\<close>

theorem bn_fast_mod_partly_reduces:
  assumes "prime_band prime" "length x = 9"
  shows "bn_normalized (bn_fast_mod x prime) \<and>
         bn_val (bn_fast_mod x prime) < 2 * bn_val prime \<and>
         bn_val (bn_fast_mod x prime) mod bn_val prime = bn_val x mod bn_val prime"
proof -
  have v: "bn_val (bn_fast_mod x prime) = bn_val x - (uint (x ! 8) div 2 ^ 16) * bn_val prime"
    using assms by (rule bn_fast_mod_val)
  have "(bn_val x - (uint (x ! 8) div 2 ^ 16) * bn_val prime) mod bn_val prime
      = bn_val x mod bn_val prime"
    by (metis mod_mult_self1 diff_add_cancel add.commute)
  then show ?thesis
    using bn_fast_mod_val(1) [OF assms] fast_mod_value(2) [OF assms] v by simp
qed

theorem bn_fast_mod_partly_reduces_witness:
  "bn_normalized (bn_fast_mod (replicate 9 0xFFFFFFFF) secp256k1_prime) \<and>
   bn_val (bn_fast_mod (replicate 9 0xFFFFFFFF) secp256k1_prime) < 2 * bn_val secp256k1_prime \<and>
   bn_val (bn_fast_mod (replicate 9 0xFFFFFFFF) secp256k1_prime) mod bn_val secp256k1_prime
     = bn_val (replicate 9 0xFFFFFFFF) mod bn_val secp256k1_prime"
proof -
  have p: "prime_band secp256k1_prime" by code_simp
  show ?thesis
    using bn_fast_mod_partly_reduces [OF p, of "replicate 9 0xFFFFFFFF"] by simp
qed


section \<open>The reduction steps of the product\<close>

lemma limbs_upto_cong:
  "(\<forall>m<n. a ! m = b ! m) \<Longrightarrow> limbs_upto n a = limbs_upto n b"
  by (simp add: limbs_upto_def)

lemma limbs_upto_zero_tail:
  "n \<le> m \<Longrightarrow> (\<forall>k. n \<le> k \<and> k < m \<longrightarrow> a ! k = 0) \<Longrightarrow> limbs_upto m a = limbs_upto n a"
proof (induction m)
  case 0
  then show ?case by simp
next
  case (Suc m)
  show ?case
  proof (cases "n = Suc m")
    case True
    then show ?thesis by simp
  next
    case False
    with Suc.prems have "n \<le> m" "a ! m = 0" by simp_all
    with Suc show ?thesis by (simp add: limbs_upto_Suc)
  qed
qed

lemma uint_push_bit14:
  fixes w :: uint32
  assumes "uint w < 2 ^ 17"
  shows "uint (push_bit 14 w) = uint w * 2 ^ 14"
proof -
  have "push_bit 14 w = word_of_int (uint w * 2 ^ 14)"
    by (simp add: push_bit_eq_mult)
  moreover have "0 \<le> uint w * 2 ^ 14" by simp
  moreover have "uint w * 2 ^ 14 < 2 ^ LENGTH(32)" using assms by simp
  ultimately show ?thesis by (simp only: uint_of_int_eq)
qed

lemma reduce_coef:
  fixes a b :: uint32
  assumes "a < 0x40000000" "uint b < 2 ^ 17"
  shows "uint (drop_bit 16 a + push_bit 14 b) = uint a div 2 ^ 16 + uint b * 2 ^ 14"
    and "uint (drop_bit 16 a + push_bit 14 b) < 2 ^ 31"
proof -
  let ?z = "uint a div 2 ^ 16 + uint b * 2 ^ 14"
  have e: "drop_bit 16 a + push_bit 14 b = word_of_int ?z"
    by (metis uint_drop_bit uint_push_bit14 [OF assms(2)] word_of_int_uint of_int_add)
  have a: "0 \<le> uint a div 2 ^ 16" "uint a div 2 ^ 16 < 16384"
    using assms(1) by (simp_all add: limb_lt_iff pos_imp_zdiv_nonneg_iff)
  have b: "0 \<le> uint b" "uint b * 2 ^ 14 \<le> 131071 * 2 ^ 14"
    using assms(2) by (simp, intro mult_right_mono, simp_all)
  have z: "0 \<le> ?z" "?z < 2147483648" using a b by simp_all
  then have "?z < 2 ^ LENGTH(32)" by simp
  with z(1) show u: "uint (drop_bit 16 a + push_bit 14 b) = ?z"
    unfolding e by (rule uint_of_int_eq)
  show "uint (drop_bit 16 a + push_bit 14 b) < 2 ^ 31"
    unfolding u using z(2) by simp
qed

lemma reduce_last_uint:
  fixes temp :: uint64 and r :: uint32
  assumes "uint temp < 2 ^ 62"
  defines "T \<equiv> drop_bit 30 temp + (0x1FFFFFFF80000000 + ucast r)"
  shows "uint T = uint temp div 2 ^ 30 + 2305843007066210304 + uint r"
proof -
  have "(0 :: uint32) < 0x40000000" "uint (0 :: uint32) < 2 ^ 31" by simp_all
  from reduce_round_uint(1) [OF assms(1) this, of r]
  show ?thesis by (simp add: T_def)
qed

text \<open>The window of ten limbs a step works on, before the step.\<close>

lemma reduce_window:
  assumes "prime_band prime" "off \<le> 8" "red_top (off + 9) res"
  defines "c \<equiv> uint (res ! (off + 8)) div 2 ^ 16 + uint (res ! (off + 9)) * 2 ^ 14"
  shows "0 \<le> limbs_at off 10 res - c * bn_val prime"
    and "limbs_at off 10 res - c * bn_val prime < 2 * bn_val prime"
proof -
  note pb = prime_band_bounds [OF assms(1)]
  define lo where "lo = limbs_at off 8 res"
  define r8 where "r8 = uint (res ! (off + 8))"
  define r9 where "r9 = uint (res ! (off + 9))"
  define hi where "hi = r8 mod 2 ^ 16"
  define gap where "gap = 2 ^ 256 - bn_val prime"
  have norm: "\<forall>k<18. res ! k < 0x40000000" and r9b: "r9 < 2 ^ 17"
    using assms(3) by (simp_all add: red_top_def r9_def)
  have W: "limbs_at off 10 res = lo + r8 * 2 ^ 240 + r9 * 2 ^ 270"
    by (simp add: lo_def r8_def r9_def eval_nat_numeral limbs_at_Suc)
  have r8: "r8 = (r8 div 2 ^ 16) * 2 ^ 16 + hi" by (simp add: hi_def)
  have c: "c = r8 div 2 ^ 16 + r9 * 2 ^ 14" by (simp add: c_def r8_def r9_def)
  have lo: "0 \<le> lo" "lo < 2 ^ 240"
    using limbs_at_nonneg [of off 8 res] limbs_at_bound [of 8 res off] norm assms(2)
    by (simp_all add: lo_def)
  have hi: "0 \<le> hi" "hi \<le> 65535"
    using pos_mod_bound [of "2 ^ 16" r8] by (simp_all add: hi_def)
  have "r8 < 2 ^ 30" using norm assms(2) by (simp add: r8_def limb_lt_iff)
  then have q8: "0 \<le> r8 div 2 ^ 16" "r8 div 2 ^ 16 < 16384"
    by (simp_all add: r8_def pos_imp_zdiv_nonneg_iff)
  have r9: "0 \<le> r9" "r9 \<le> 131071" using r9b by (simp_all add: r9_def)
  then have "r9 * 2 ^ 14 \<le> 131071 * 2 ^ 14" by (intro mult_right_mono) simp_all
  with q8 r9 have c0: "0 \<le> c" and c1: "c \<le> 2147483647" by (simp_all add: c)
  have gap: "0 < gap" "gap < 2 ^ 224" using pb(5,6) by (simp_all add: gap_def)
  have cg: "0 \<le> c * gap" "c * gap \<le> 2147483647 * 2 ^ 224"
    using c0 c1 gap by (simp, intro mult_mono, simp_all)
  have "r8 * 2 ^ 240 = (r8 div 2 ^ 16) * 2 ^ 256 + hi * 2 ^ 240"
    by (subst r8) (simp add: algebra_simps)
  then have D: "limbs_at off 10 res - c * bn_val prime = lo + hi * 2 ^ 240 + c * gap"
    unfolding W c gap_def by (simp add: algebra_simps)
  show "0 \<le> limbs_at off 10 res - c * bn_val prime"
    unfolding D using lo(1) hi(1) cg(1) by simp
  have "hi * 2 ^ 240 \<le> 65535 * 2 ^ 240"
    using hi(2) by (intro mult_right_mono) simp_all
  then show "limbs_at off 10 res - c * bn_val prime < 2 * bn_val prime"
    unfolding D using lo(2) cg(2) pb(5) by simp
qed

lemma reduce_step_correct:
  assumes pb: "prime_band prime" and off: "off \<le> 8" and rt: "red_top (off + 9) res"
  shows "\<exists>res'. bn_multiply_reduce_step res prime (off + 8) = Some res' \<and>
           red_top (off + 8) res' \<and> res' ! (off + 9) = 0 \<and>
           limbs_upto 18 res' mod bn_val prime = limbs_upto 18 res mod bn_val prime \<and>
           limbs_upto 18 res' < 2 ^ (30 * off) * (2 * bn_val prime)"
proof -
  note pbb = prime_band_bounds [OF pb]
  define coef where "coef = drop_bit 16 (res ! (off + 8)) + push_bit 14 (res ! (off + 9))"
  define c where "c = uint (res ! (off + 8)) div 2 ^ 16 + uint (res ! (off + 9)) * 2 ^ 14"
  define P where "P = bn_val prime"
  define Q :: int where "Q = 2 ^ (30 * off)"
  have len: "length res = 18" and norm: "\<forall>k<18. res ! k < 0x40000000"
    and zero: "\<forall>k. off + 9 < k \<and> k < 18 \<longrightarrow> res ! k = 0"
    and top: "uint (res ! (off + 9)) < 2 ^ 17"
    using rt by (simp_all add: red_top_def)
  have r8n: "res ! (off + 8) < 0x40000000" using norm off by simp
  have c: "uint coef = c" and c31: "uint coef < 2 ^ 31"
    using reduce_coef [OF r8n top] by (simp_all add: coef_def c_def)
  have ok: "coef < 0x80000000" using c31 by (simp add: word_less_def)
  obtain temp res9
    where f: "fold (bn_reduce_round prime coef off) [0..<9] (0x2000000000000000, res) = (temp, res9)"
    by (cases "fold (bn_reduce_round prime coef off) [0..<9] (0x2000000000000000, res)")
  from reduce_loop_inv [OF c31 pbb(3) _ f] len off
  have inv: "length res9 = 18" "\<forall>k. k < off \<or> off + 9 \<le> k \<longrightarrow> res9 ! k = res ! k"
    "\<forall>m<9. res9 ! (off + m) < 0x40000000" "uint temp < 2 ^ 62"
    "limbs_at off 9 res9 + (uint temp div 2 ^ 30 - 2 ^ 31) * 2 ^ 270 = limbs_at off 9 res - c * P"
    by (simp_all add: c pbb(4) P_def)
  define T where "T = drop_bit 30 temp + (0x1FFFFFFF80000000 + ucast (res9 ! (off + 9)))"
  define res10 where "res10 = res9[off + 9 := ucast (T AND 0x3FFFFFFF)]"
  have idx: "off + 8 + 1 = off + 9" "off + 8 - 8 = off" by simp_all
  have st: "bn_multiply_reduce_step res prime (off + 8) = Some res10"
    unfolding bn_multiply_reduce_step_def idx coef_def [symmetric]
    using ok f by (simp add: Let_def upt_0_9 reduce_first add_diff_eq T_def res10_def)
  have r9: "res9 ! (off + 9) = res ! (off + 9)" using inv(2) by simp
  have T: "uint T = uint temp div 2 ^ 30 + 2305843007066210304 + uint (res ! (off + 9))"
    unfolding T_def using reduce_last_uint [OF inv(4)] by (simp add: r9)
  have len10: "length res10 = 18" by (simp add: res10_def inv(1))
  have top10: "res10 ! (off + 9) = ucast (T AND 0x3FFFFFFF)"
    using off by (simp add: res10_def inv(1))
  have low10: "res10 ! k = res9 ! k" if "k \<noteq> off + 9" for k
    using that by (simp add: res10_def)
  have "limbs_at off 9 res10 = limbs_at off 9 res9"
    by (rule limbs_at_cong) (simp add: low10)
  then have V: "limbs_at off 10 res10 = limbs_at off 9 res9 + (uint T mod 2 ^ 30) * 2 ^ 270"
    by (simp add: limbs_at_Suc [of off 9, simplified] top10 uint_ucast_masked)
  have W: "limbs_at off 10 res = limbs_at off 9 res + uint (res ! (off + 9)) * 2 ^ 270"
    by (simp add: limbs_at_Suc [of off 9, simplified])
  define Q9 :: int where "Q9 = 2 ^ 270"
  have Q10: "(2::int) ^ 300 = 1073741824 * Q9" by (simp add: Q9_def)
  have "Q9 * (uint T mod 2 ^ 30) + Q9 * (2 ^ 30 * (uint T div 2 ^ 30)) = Q9 * uint T"
    by (simp flip: distrib_left)
  then have "limbs_at off 10 res10 + (uint T div 2 ^ 30 - 2 ^ 31) * 2 ^ 300
      = limbs_at off 9 res9 + Q9 * (uint T - 2305843009213693952)"
    unfolding V Q10 Q9_def [symmetric] by (simp add: algebra_simps)
  also have "\<dots> = limbs_at off 10 res - c * P"
    using inv(5) unfolding T W Q9_def [symmetric] by (simp add: algebra_simps)
  finally have eq: "limbs_at off 10 res10 + (uint T div 2 ^ 30 - 2 ^ 31) * 2 ^ 300
      = limbs_at off 10 res - c * P" .
  have norm10: "\<forall>k<18. res10 ! k < 0x40000000"
  proof (intro allI impI)
    fix k :: nat assume k: "k < 18"
    consider "k = off + 9" | "off \<le> k" "k < off + 9" | "k < off" | "off + 9 < k" by linarith
    then show "res10 ! k < 0x40000000"
    proof cases
      case 1
      then show ?thesis by (simp add: top10 masked_limb_lt)
    next
      case 2
      then obtain m where "k = off + m" "m < 9"
        by (metis add_diff_inverse_nat less_diff_conv2 not_less add.commute)
      then show ?thesis using inv(3) by (simp add: low10)
    next
      case 3
      then show ?thesis using inv(2) norm k by (simp add: low10)
    next
      case 4
      then show ?thesis using inv(2) norm k by (simp add: low10)
    qed
  qed
  have win10: "\<forall>m<10. res10 ! (off + m) < 0x40000000"
    using norm10 off by simp
  have D: "0 \<le> limbs_at off 10 res - c * P" "limbs_at off 10 res - c * P < 2 * P"
    using reduce_window [OF pb off rt] by (simp_all add: c_def P_def)
  have P256: "2 * P < 2 ^ 257" using pbb(6) by (simp add: P_def)
  have "uint T div 2 ^ 30 - 2 ^ 31 = 0"
    using eq limbs_at_nonneg [of off 10 res10] limbs_at_bound [OF win10] D P256
    by (intro carry_zero [of "limbs_at off 10 res10" _ "2 ^ 300" "limbs_at off 10 res - c * P"])
       simp_all
  with eq have Veq: "limbs_at off 10 res10 = limbs_at off 10 res - c * P" by simp
  define u8 where "u8 = uint (res10 ! (off + 8))"
  define u9 where "u9 = uint (res10 ! (off + 9))"
  have V10: "limbs_at off 10 res10 = limbs_at off 8 res10 + u8 * 2 ^ 240 + u9 * 2 ^ 270"
    by (simp add: u8_def u9_def eval_nat_numeral limbs_at_Suc)
  have small: "limbs_at off 8 res10 + u8 * 2 ^ 240 + u9 * 2 ^ 270 < 2 ^ 257"
    using Veq D(2) P256 V10 by simp
  have u0: "0 \<le> u8" "0 \<le> u9" by (simp_all add: u8_def u9_def)
  have u9z: "u9 = 0"
  proof (rule ccontr)
    assume "u9 \<noteq> 0"
    with u0 have "1 * 2 ^ 270 \<le> u9 * (2 ^ 270 :: int)" by (intro mult_right_mono) simp_all
    with small limbs_at_nonneg [of off 8 res10] u0 show False by simp
  qed
  have u8s: "u8 < 2 ^ 17"
  proof (rule ccontr)
    assume "\<not> u8 < 2 ^ 17"
    then have "2 ^ 17 * 2 ^ 240 \<le> u8 * (2 ^ 240 :: int)" by (intro mult_right_mono) simp_all
    with small limbs_at_nonneg [of off 8 res10] u9z show False by simp
  qed
  have z9: "res10 ! (off + 9) = 0"
    using u9z by (simp add: u9_def unsigned_eq_0_iff)
  have zero10: "\<forall>k. off + 8 < k \<and> k < 18 \<longrightarrow> res10 ! k = 0"
  proof (intro allI impI)
    fix k assume k: "off + 8 < k \<and> k < 18"
    show "res10 ! k = 0"
    proof (cases "k = off + 9")
      case True
      then show ?thesis by (simp add: z9)
    next
      case False
      with k have "off + 9 < k" by simp
      with k inv(2) zero show ?thesis by (simp add: low10 False)
    qed
  qed
  have rt10: "red_top (off + 8) res10"
    using len10 norm10 zero10 u8s by (simp add: red_top_def u8_def)
  have tail10: "limbs_upto 18 res10 = limbs_upto (off + 10) res10"
    using zero10 off by (intro limbs_upto_zero_tail) simp_all
  have tail: "limbs_upto 18 res = limbs_upto (off + 10) res"
    using zero off by (intro limbs_upto_zero_tail) simp_all
  have lowpart: "limbs_upto off res10 = limbs_upto off res"
    using inv(2) by (intro limbs_upto_cong) (simp add: low10)
  have val: "limbs_upto 18 res10 = limbs_upto 18 res - (c * Q) * P"
    unfolding tail10 tail limbs_upto_split lowpart Veq Q_def by (simp add: algebra_simps)
  have "(limbs_upto 18 res - (c * Q) * P) mod P = limbs_upto 18 res mod P"
    by (metis mod_mult_self1 diff_add_cancel add.commute)
  then have cong: "limbs_upto 18 res10 mod P = limbs_upto 18 res mod P"
    by (simp add: val)
  have lowb: "limbs_upto off res10 < Q" "0 < Q"
    using limbs_upto_bound [of off res10] norm10 off by (simp_all add: Q_def)
  have "limbs_at off 10 res10 \<le> 2 * P - 1" using Veq D(2) by simp
  then have "Q * limbs_at off 10 res10 \<le> Q * (2 * P - 1)"
    using lowb(2) by (intro mult_left_mono) simp_all
  then have bound: "limbs_upto 18 res10 < Q * (2 * P)"
    unfolding tail10 limbs_upto_split Q_def [symmetric] using lowb(1)
    by (simp add: algebra_simps)
  show ?thesis
    using st rt10 z9 cong bound by (auto simp: P_def Q_def)
qed

lemma reduce_loop_correct:
  assumes "prime_band prime" "n \<le> 9" "red_top (n + 8) res"
  shows "\<exists>res'. bn_multiply_reduce_loop n res prime = Some res' \<and> red_top 8 res' \<and>
           limbs_upto 18 res' mod bn_val prime = limbs_upto 18 res mod bn_val prime \<and>
           (0 < n \<longrightarrow> limbs_upto 18 res' < 2 * bn_val prime)"
  using assms(2,3)
proof (induction n arbitrary: res)
  case 0
  then show ?case by simp
next
  case (Suc n)
  from Suc.prems have "n \<le> 8" "red_top (n + 9) res" by (simp_all add: add.commute)
  from reduce_step_correct [OF assms(1) this]
  obtain res1 where s: "bn_multiply_reduce_step res prime (n + 8) = Some res1"
    "red_top (n + 8) res1" "res1 ! (n + 9) = 0"
    "limbs_upto 18 res1 mod bn_val prime = limbs_upto 18 res mod bn_val prime"
    "limbs_upto 18 res1 < 2 ^ (30 * n) * (2 * bn_val prime)"
    by blast
  have "n \<le> 9" using Suc.prems by simp
  from Suc.IH [OF this s(2)]
  obtain res' where l: "bn_multiply_reduce_loop n res1 prime = Some res'" "red_top 8 res'"
    "limbs_upto 18 res' mod bn_val prime = limbs_upto 18 res1 mod bn_val prime"
    "0 < n \<longrightarrow> limbs_upto 18 res' < 2 * bn_val prime"
    by blast
  have "bn_multiply_reduce_loop (Suc n) res prime = Some res'"
    using s(1,3) l(1) by (simp add: add.commute)
  moreover have "limbs_upto 18 res' < 2 * bn_val prime"
  proof (cases "n = 0")
    case True
    with l(1) s(5) show ?thesis by simp
  next
    case False
    with l(4) show ?thesis by simp
  qed
  ultimately show ?case using l(2,3) s(4) by simp
qed


section \<open>Long multiplication\<close>

lemma cauchy_product_9:
  fixes f g :: "nat \<Rightarrow> int"
  shows "(\<Sum>c\<leftarrow>[0..<17]. (\<Sum>j\<leftarrow>mul_js c. f j * g (c - j)) * 2 ^ (30 * c))
       = (\<Sum>j\<leftarrow>[0..<9]. f j * 2 ^ (30 * j)) * (\<Sum>m\<leftarrow>[0..<9]. g m * 2 ^ (30 * m))"
proof -
  have u17: "[0..<17] = [0, Suc 0, 2, 3, 4, 5, 6, 7, 8, 9, 10, 11, 12, 13, 14, 15, 16]"
    by code_simp
  have u9: "[0..<9] = [0, Suc 0, 2, 3, 4, 5, 6, 7, 8]" by code_simp
  have j: "mul_js 0 = [0]" "mul_js (Suc 0) = [0, Suc 0]" "mul_js 2 = [0, Suc 0, 2]"
    "mul_js 3 = [0, Suc 0, 2, 3]" "mul_js 4 = [0, Suc 0, 2, 3, 4]"
    "mul_js 5 = [0, Suc 0, 2, 3, 4, 5]" "mul_js 6 = [0, Suc 0, 2, 3, 4, 5, 6]"
    "mul_js 7 = [0, Suc 0, 2, 3, 4, 5, 6, 7]" "mul_js 8 = [0, Suc 0, 2, 3, 4, 5, 6, 7, 8]"
    "mul_js 9 = [Suc 0, 2, 3, 4, 5, 6, 7, 8]" "mul_js 10 = [2, 3, 4, 5, 6, 7, 8]"
    "mul_js 11 = [3, 4, 5, 6, 7, 8]" "mul_js 12 = [4, 5, 6, 7, 8]" "mul_js 13 = [5, 6, 7, 8]"
    "mul_js 14 = [6, 7, 8]" "mul_js 15 = [7, 8]" "mul_js 16 = [8]"
    by code_simp+
  show ?thesis
    unfolding u17 u9 by (simp add: j algebra_simps)
qed

lemma limbs_upto_sum_list: "limbs_upto n a = (\<Sum>i\<leftarrow>[0..<n]. uint (a ! i) * 2 ^ (30 * i))"
  by (induction n) (simp_all add: limbs_upto_Suc)

lemma mul_cols_product:
  "(\<Sum>c\<leftarrow>[0..<17]. mul_col k x c * 2 ^ (30 * c)) = bn_val k * bn_val x"
  unfolding mul_col_def bn_val_def limbs_upto_sum_list
  by (rule cauchy_product_9)

lemma mul_js_props:
  assumes "c \<le> 16"
  shows "\<forall>j\<in>set (mul_js c). j < 9 \<and> c - j < 9" "length (mul_js c) \<le> 9"
  using assms by (auto simp: mul_js_def)

lemma multiply_terms_uint:
  assumes "\<forall>j\<in>set js. k ! j < 0x40000000 \<and> x ! (i - j) < 0x40000000"
    and "uint temp + int (length js) * 2 ^ 60 < 2 ^ 64"
  shows "uint (fold (bn_multiply_term k x i) js temp)
           = uint temp + (\<Sum>j\<leftarrow>js. uint (k ! j) * uint (x ! (i - j)))"
  using assms
proof (induction js arbitrary: temp)
  case Nil
  then show ?case by simp
next
  case (Cons j js)
  define a where "a = uint (k ! j)"
  define b where "b = uint (x ! (i - j))"
  define T where "T = bn_multiply_term k x i j temp"
  have ab: "0 \<le> a" "a < 2 ^ 30" "0 \<le> b" "b < 2 ^ 30"
    using Cons.prems(1) by (simp_all add: a_def b_def limb_lt_iff)
  have "a * b \<le> 1073741823 * 1073741823"
    using ab by (intro mult_mono) simp_all
  then have p: "0 \<le> a * b" "a * b < 2 ^ 60" using ab by simp_all
  have B: "(ucast (k ! j) :: uint64) = word_of_int a" "(ucast (x ! (i - j)) :: uint64) = word_of_int b"
    unfolding a_def b_def by (metis uint_ucast_32_64 word_of_int_uint)+
  have e: "T = word_of_int (uint temp + a * b)"
    unfolding T_def bn_multiply_term_def B by simp
  have big: "uint temp + (1 + int (length js)) * 2 ^ 60 < 2 ^ 64"
    using Cons.prems(2) by (simp add: algebra_simps)
  have "0 \<le> int (length js) * (2 ^ 60 :: int)" by simp
  with big p have "uint temp + a * b < 2 ^ LENGTH(64)"
    by (simp add: algebra_simps)
  moreover have "0 \<le> uint temp + a * b" using p by simp
  ultimately have T: "uint T = uint temp + a * b"
    unfolding e by (intro uint_of_int_eq)
  have "uint T + int (length js) * 2 ^ 60 < 2 ^ 64"
    using big p unfolding T by (simp add: algebra_simps)
  from Cons.IH [OF _ this] Cons.prems(1)
  have "uint (fold (bn_multiply_term k x i) js T)
      = uint T + (\<Sum>j\<leftarrow>js. uint (k ! j) * uint (x ! (i - j)))"
    by simp
  then show ?case
    by (simp add: T T_def [symmetric] a_def b_def)
qed

lemma multiply_cols_inv:
  assumes "bn_normalized k" "bn_normalized x" "length res0 = 18" "n \<le> 17"
    and "fold (\<lambda>c. bn_multiply_column k x (mul_js c) c) [0..<n] (0, res0) = (temp, res)"
  shows "length res = 18 \<and> (\<forall>i<n. res ! i < 0x40000000) \<and> uint temp < 2 ^ 34 \<and>
         limbs_upto n res + 2 ^ (30 * n) * uint temp = (\<Sum>c\<leftarrow>[0..<n]. mul_col k x c * 2 ^ (30 * c))"
  using assms(4,5)
proof (induction n arbitrary: temp res)
  case 0
  then show ?case using assms(3) by simp
next
  case (Suc n)
  obtain t0 r0
    where f0: "fold (\<lambda>c. bn_multiply_column k x (mul_js c) c) [0..<n] (0, res0) = (t0, r0)"
    by (cases "fold (\<lambda>c. bn_multiply_column k x (mul_js c) c) [0..<n] (0, res0)")
  define Q :: int where "Q = 2 ^ (30 * n)"
  have QS: "(2::int) ^ (30 * Suc n) = 1073741824 * Q"
    by (simp add: Q_def power_add)
  from Suc.IH [OF _ f0] Suc.prems
  have ih: "length r0 = 18" "\<forall>i<n. r0 ! i < 0x40000000" "uint t0 < 2 ^ 34"
    "limbs_upto n r0 + Q * uint t0 = (\<Sum>c\<leftarrow>[0..<n]. mul_col k x c * 2 ^ (30 * c))"
    by (simp_all add: Q_def)
  have n16: "n \<le> 16" using Suc.prems by simp
  define T where "T = fold (bn_multiply_term k x n) (mul_js n) t0"
  have lim: "\<forall>j\<in>set (mul_js n). k ! j < 0x40000000 \<and> x ! (n - j) < 0x40000000"
    using mul_js_props(1) [OF n16] assms(1,2) by (auto simp: bn_normalized_nth)
  have "int (length (mul_js n)) * 2 ^ 60 \<le> 9 * 2 ^ 60"
    using mul_js_props(2) [OF n16] by (intro mult_right_mono) simp_all
  with ih(3) have "uint t0 + int (length (mul_js n)) * 2 ^ 60 < 2 ^ 64" by simp
  from multiply_terms_uint [OF lim this]
  have T: "uint T = uint t0 + mul_col k x n" by (simp add: T_def mul_col_def)
  from Suc.prems(2) f0
  have "(temp, res) = bn_multiply_column k x (mul_js n) n (t0, r0)" by simp
  then have res: "temp = drop_bit 30 T" "res = r0[n := ucast (T AND 0x3FFFFFFF)]"
    by (simp_all add: Let_def T_def)
  have nlt: "n < length r0" using ih(1) n16 by simp
  have len: "length res = 18" using res ih(1) by simp
  have limbs: "\<forall>i<Suc n. res ! i < 0x40000000"
    using ih(2) nlt by (auto simp: res nth_list_update less_Suc_eq masked_limb_lt)
  have "uint T < 2 ^ 34 * 2 ^ 30" using uint_lt2p [of T] by simp
  then have t34: "uint temp < 2 ^ 34"
    unfolding res uint_drop_bit by (intro div_2p30_le(1)) simp_all
  have "limbs_upto n res = limbs_upto n r0"
    by (rule limbs_upto_cong) (simp add: res)
  moreover have "uint (res ! n) = uint T mod 2 ^ 30"
    using nlt by (simp add: res uint_ucast_masked)
  ultimately have "limbs_upto (Suc n) res = limbs_upto n r0 + (uint T mod 2 ^ 30) * Q"
    by (simp add: limbs_upto_Suc Q_def)
  moreover have "Q * (uint T mod 2 ^ 30) + Q * (2 ^ 30 * (uint T div 2 ^ 30)) = Q * uint T"
    by (simp flip: distrib_left)
  ultimately have "limbs_upto (Suc n) res + 2 ^ (30 * Suc n) * uint temp = limbs_upto n r0 + Q * uint T"
    unfolding res uint_drop_bit QS by (simp add: algebra_simps)
  also have "\<dots> = (\<Sum>c\<leftarrow>[0..<Suc n]. mul_col k x c * 2 ^ (30 * c))"
    using ih(4) unfolding T by (simp add: algebra_simps Q_def)
  finally show ?case using len limbs t34 by simp
qed

lemma multiply_long_cols:
  "fold (bn_multiply_upper k x) [9..<17] (fold (bn_multiply_lower k x) [0..<9] s)
     = fold (\<lambda>c. bn_multiply_column k x (mul_js c) c) [0..<17] s"
proof -
  have l: "fold (bn_multiply_lower k x) [0..<9] s
      = fold (\<lambda>c. bn_multiply_column k x (mul_js c) c) [0..<9] s" for s
    by (rule fold_cong) (auto simp: bn_multiply_lower_def mul_js_def fun_eq_iff)
  have u: "fold (bn_multiply_upper k x) [9..<17] s
      = fold (\<lambda>c. bn_multiply_column k x (mul_js c) c) [9..<17] s" for s
    by (rule fold_cong) (auto simp: bn_multiply_upper_def mul_js_def fun_eq_iff)
  have split: "[0..<17] = [0..<9] @ [9..<17]" by code_simp
  show ?thesis by (simp only: split fold_append o_apply l u)
qed

lemma uint_ucast_64_32:
  fixes w :: uint64
  assumes "uint w < 2 ^ 32"
  shows "uint (ucast w :: uint32) = uint w"
  using assms by (simp add: unsigned_ucast_eq take_bit_int_eq_self)

lemma bn_multiply_long_val:
  assumes "bn_normalized k" "bn_normalized x" "length res0 = 18"
  shows "length (bn_multiply_long k x res0) = 18"
    and "\<forall>i<18. bn_multiply_long k x res0 ! i < 0x40000000"
    and "limbs_upto 18 (bn_multiply_long k x res0) = bn_val k * bn_val x"
proof -
  obtain temp res
    where f: "fold (\<lambda>c. bn_multiply_column k x (mul_js c) c) [0..<17] (0, res0) = (temp, res)"
    by (cases "fold (\<lambda>c. bn_multiply_column k x (mul_js c) c) [0..<17] (0, res0)")
  from multiply_cols_inv [OF assms _ f]
  have inv: "length res = 18" "\<forall>i<17. res ! i < 0x40000000"
    "limbs_upto 17 res + 2 ^ 510 * uint temp = bn_val k * bn_val x"
    by (simp_all add: mul_cols_product)
  define r where "r = res[17 := ucast temp]"
  have r: "bn_multiply_long k x res0 = r"
    unfolding bn_multiply_long_def multiply_long_cols f by (simp add: r_def)
  have "bn_val k * bn_val x < 2 ^ 270 * 2 ^ 270"
    using bn_val_bounds [OF assms(1)] bn_val_bounds [OF assms(2)]
    by (intro mult_strict_mono) simp_all
  with inv(3) limbs_upto_nonneg [of 17 res] have "2 ^ 510 * uint temp < 2 ^ 510 * 2 ^ 30"
    by simp
  then have t30: "uint temp < 2 ^ 30"
    using mult_less_cancel_left_pos [of "2 ^ 510" "uint temp" "2 ^ 30"] by simp
  then have u: "uint (ucast temp :: uint32) = uint temp"
    by (intro uint_ucast_64_32) simp
  show "length (bn_multiply_long k x res0) = 18" by (simp add: r r_def inv(1))
  have r17: "r ! 17 = ucast temp" by (simp add: r_def inv(1))
  show "\<forall>i<18. bn_multiply_long k x res0 ! i < 0x40000000"
    unfolding r
  proof (intro allI impI)
    fix i :: nat assume "i < 18"
    show "r ! i < 0x40000000"
    proof (cases "i = 17")
      case True
      then show ?thesis using t30 by (simp add: r17 limb_lt_iff u)
    next
      case False
      with \<open>i < 18\<close> have "i < 17" by simp
      then show ?thesis using inv(2) by (simp add: r_def)
    qed
  qed
  have "limbs_upto 17 r = limbs_upto 17 res"
    by (rule limbs_upto_cong) (simp add: r_def)
  then show "limbs_upto 18 (bn_multiply_long k x res0) = bn_val k * bn_val x"
    using inv(3) by (simp add: r limbs_upto_Suc [of 17, simplified] r17 u)
qed


section \<open>Modular multiplication\<close>

lemma copy_limbs:
  "n \<le> length x \<Longrightarrow>
     length (fold (\<lambda>i x. x[i := res ! i]) [0..<n] x) = length x \<and>
     (\<forall>i<n. fold (\<lambda>i x. x[i := res ! i]) [0..<n] x ! i = res ! i)"
  by (induction n) (auto simp: nth_list_update less_Suc_eq)

lemma memzero_18: "length res = 18 \<Longrightarrow> memzero res = replicate 18 0"
  by (simp add: memzero_def)

lemma bn_multiply_st_correct:
  assumes pb: "prime_band prime" and nk: "bn_normalized k" and nx: "bn_normalized x"
    and bk: "bn_val k < 180 * bn_val prime" and bx: "bn_val x < 180 * bn_val prime"
  shows "\<exists>y. bn_multiply_st k x prime = Some (y, replicate 18 0) \<and> bn_normalized y \<and>
           bn_val y < 2 * bn_val prime \<and>
           bn_val y mod bn_val prime = (bn_val k * bn_val x) mod bn_val prime"
proof -
  note pbb = prime_band_bounds [OF pb]
  define P where "P = bn_val prime"
  define r where "r = bn_multiply_long k x (replicate 18 0)"
  have r: "length r = 18" "\<forall>i<18. r ! i < 0x40000000" "limbs_upto 18 r = bn_val k * bn_val x"
    using bn_multiply_long_val [OF nk nx, of "replicate 18 0"] by (simp_all add: r_def)
  have k0: "0 \<le> bn_val k" and x0: "0 \<le> bn_val x"
    using bn_val_bounds [OF nk] bn_val_bounds [OF nx] by simp_all
  have P: "0 < P" "P < 2 ^ 256" using pbb(5,6) by (simp_all add: P_def)
  have "bn_val k * bn_val x \<le> (180 * P) * (180 * P)"
    using k0 x0 bk bx P by (intro mult_mono) (simp_all add: P_def)
  also have "\<dots> = 32400 * (P * P)" by simp
  also have "P * P \<le> 2 ^ 256 * 2 ^ 256" using P by (intro mult_mono) simp_all
  finally have prod: "bn_val k * bn_val x < 2 ^ 527" by simp
  have "limbs_upto 18 r = limbs_upto 17 r + uint (r ! 17) * 2 ^ 510"
    by (simp add: limbs_upto_Suc [of 17, simplified])
  with r(3) prod limbs_upto_nonneg [of 17 r] have "uint (r ! 17) * 2 ^ 510 < 2 ^ 17 * 2 ^ 510"
    by simp
  then have top: "uint (r ! 17) < 2 ^ 17"
    using mult_less_cancel_right_pos [of "uint (r ! 17)" "2 ^ 510" "2 ^ 17"] by simp
  have rt: "red_top (9 + 8) r"
    using r(1,2) top by (auto simp: red_top_def)
  from reduce_loop_correct [OF pb _ rt]
  obtain res' where l: "bn_multiply_reduce_loop 9 r prime = Some res'" "red_top 8 res'"
    "limbs_upto 18 res' mod P = limbs_upto 18 r mod P" "limbs_upto 18 res' < 2 * P"
    by (auto simp: P_def)
  define y where "y = fold (\<lambda>i x. x[i := res' ! i]) [0..<9] x"
  have lx: "length x = 9" using nx by (simp add: bn_normalized_def)
  have y: "length y = 9" "\<forall>i<9. y ! i = res' ! i"
    using copy_limbs [of 9 x res'] lx by (simp_all add: y_def)
  have res': "length res' = 18" "\<forall>k<18. res' ! k < 0x40000000"
    "\<forall>k. 8 < k \<and> k < 18 \<longrightarrow> res' ! k = 0"
    using l(2) by (simp_all add: red_top_def)
  have ny: "bn_normalized y"
    using y res'(2) by (intro bn_normalizedI) simp_all
  have "limbs_upto 18 res' = limbs_upto 9 res'"
    using res'(3) by (intro limbs_upto_zero_tail) simp_all
  moreover have "limbs_upto 9 y = limbs_upto 9 res'"
    using y(2) by (intro limbs_upto_cong) simp
  ultimately have vy: "bn_val y = limbs_upto 18 res'" by (simp add: bn_val_def)
  have st: "bn_multiply_st k x prime = Some (y, replicate 18 0)"
    by (simp add: bn_multiply_st_def Let_def r_def [symmetric] bn_multiply_reduce_def l(1)
          y_def memzero_18 res'(1))
  show ?thesis
    using st ny vy l(3,4) r(3) by (auto simp: P_def)
qed

lemma bn_multiply_correct:
  assumes "prime_band prime" "bn_normalized k" "bn_normalized x"
    and "bn_val k < 180 * bn_val prime" "bn_val x < 180 * bn_val prime"
  shows "\<exists>y. bn_multiply k x prime = Some y \<and> bn_normalized y \<and>
           bn_val y < 2 * bn_val prime \<and>
           bn_val y mod bn_val prime = (bn_val k * bn_val x) mod bn_val prime"
  using bn_multiply_st_correct [OF assms] by (auto simp: bn_multiply_def)

text \<open>
  C1: for a prime of the band and inputs \<open>k\<close> and \<open>x\<close> below \<open>180 * prime\<close>,
  \<open>bn_multiply\<close> returns (no assertion fails) and leaves in \<open>x\<close> a normalized value
  below \<open>2 * prime\<close> that is congruent to \<open>k * x\<close> modulo the prime.  The inputs and the
  prime are bignums of the data model, with limbs of 30 bits, as \<open>bn_multiply_long\<close>
  requires of its callers.
\<close>

theorem bn_multiply_partly_reduced:
  assumes "prime_band prime" "bn_normalized k" "bn_normalized x"
    and "bn_val k < 180 * bn_val prime" "bn_val x < 180 * bn_val prime"
  shows "\<exists>y. bn_multiply k x prime = Some y \<and> bn_normalized y \<and>
           bn_val y < 2 * bn_val prime \<and>
           bn_val y mod bn_val prime = (bn_val k * bn_val x) mod bn_val prime"
  using assms by (rule bn_multiply_correct)

theorem bn_multiply_partly_reduced_witness:
  "\<exists>y. bn_multiply [0x3FFFFFFF, 0x3FFFFFFF, 0x3FFFFFFF, 0x3FFFFFFF, 0x3FFFFFFF, 0x3FFFFFFF, 0x3FFFFFFF, 0x3FFFFFFF, 0xB3FFFE]
         [5, 6, 7, 0, 0, 0, 0, 0, 9] secp256k1_prime = Some y \<and>
        bn_normalized y \<and> bn_val y < 2 * bn_val secp256k1_prime \<and>
        bn_val y mod bn_val secp256k1_prime
          = (bn_val [0x3FFFFFFF, 0x3FFFFFFF, 0x3FFFFFFF, 0x3FFFFFFF, 0x3FFFFFFF, 0x3FFFFFFF, 0x3FFFFFFF, 0x3FFFFFFF, 0xB3FFFE] *
             bn_val [5, 6, 7, 0, 0, 0, 0, 0, 9])
              mod bn_val secp256k1_prime"
proof -
  have p: "prime_band secp256k1_prime" by code_simp
  have k: "bn_normalized [0x3FFFFFFF, 0x3FFFFFFF, 0x3FFFFFFF, 0x3FFFFFFF, 0x3FFFFFFF, 0x3FFFFFFF, 0x3FFFFFFF, 0x3FFFFFFF, 0xB3FFFE]" by code_simp
  have x: "bn_normalized [5, 6, 7, 0, 0, 0, 0, 0, 9]" by code_simp
  have bk: "bn_val [0x3FFFFFFF, 0x3FFFFFFF, 0x3FFFFFFF, 0x3FFFFFFF, 0x3FFFFFFF, 0x3FFFFFFF, 0x3FFFFFFF, 0x3FFFFFFF, 0xB3FFFE] < 180 * bn_val secp256k1_prime" by code_simp
  have bx: "bn_val [5, 6, 7, 0, 0, 0, 0, 0, 9] < 180 * bn_val secp256k1_prime" by code_simp
  show ?thesis
    using bn_multiply_partly_reduced [OF p k x bk bx] .
qed

end
